theory Spec2Isabelle
  imports Complex_Main "HOL-Library.Word"
begin

section \<open>C doubles\<close>

text \<open>
  \<^verbatim>\<open>comp_L.c\<close> computes with C \<^verbatim>\<open>double\<close>s, the binary64 numbers of IEEE 754. A double is
  a finite real, the negative zero, an infinity or NaN; \<open>Fin 0\<close> is the positive zero, and
  the finite doubles are the values \<open>Fin x\<close> that \<open>round64\<close> returns. The operators
  \<^verbatim>\<open>+ - * /\<close> and \<^verbatim>\<open>sqrt\<close> return the exact result rounded to the nearest double, ties to
  even, as IEEE 754 requires. C leaves the accuracy of \<^verbatim>\<open>log10\<close>, \<^verbatim>\<open>pow\<close>, \<^verbatim>\<open>sin\<close>,
  \<^verbatim>\<open>cos\<close> and \<^verbatim>\<open>atan2\<close> open: their results at ordinary arguments are parameters of the
  model (the record \<open>libm\<close>), and their special cases are those of C11 Annex F.
\<close>

datatype double = Fin real | NZero | PInf | NInf | NaN

fun val :: "double \<Rightarrow> real" where
  "val (Fin r) = r"
| "val _ = 0"

fun is_fin :: "double \<Rightarrow> bool" where
  "is_fin (Fin _) = True"
| "is_fin NZero = True"
| "is_fin _ = False"

fun is_nan :: "double \<Rightarrow> bool" where
  "is_nan NaN = True"
| "is_nan _ = False"

fun is_neg :: "double \<Rightarrow> bool" where
  "is_neg (Fin r) = (r < 0)"
| "is_neg NZero = True"
| "is_neg NInf = True"
| "is_neg _ = False"

definition is_zero :: "double \<Rightarrow> bool" where
  "is_zero a = (is_fin a \<and> val a = 0)"

definition signed_inf :: "bool \<Rightarrow> double" where
  "signed_inf neg = (if neg then NInf else PInf)"

definition signed_zero :: "bool \<Rightarrow> double" where
  "signed_zero neg = (if neg then NZero else Fin 0)"

definition p2 :: "int \<Rightarrow> real" where
  \<comment> \<open>the real \<open>2\<^sup>k\<close>\<close>
  "p2 k = (if 0 \<le> k then 2 ^ nat k else 1 / 2 ^ nat (- k))"

definition p10 :: "int \<Rightarrow> real" where
  \<comment> \<open>the real \<open>10\<^sup>k\<close>\<close>
  "p10 k = (if 0 \<le> k then 10 ^ nat k else 1 / 10 ^ nat (- k))"

definition round_half_even :: "real \<Rightarrow> int" where
  "round_half_even x =
     (if x - of_int \<lfloor>x\<rfloor> < 1 / 2 then \<lfloor>x\<rfloor>
      else if 1 / 2 < x - of_int \<lfloor>x\<rfloor> then \<lfloor>x\<rfloor> + 1
      else if even \<lfloor>x\<rfloor> then \<lfloor>x\<rfloor> else \<lfloor>x\<rfloor> + 1)"

definition binade :: "real \<Rightarrow> int" where
  \<comment> \<open>the exponent of the nonzero \<open>r\<close>, held at that of the subnormal numbers\<close>
  "binade r = max \<lfloor>log 2 \<bar>r\<bar>\<rfloor> (- 1022)"

definition round64 :: "bool \<Rightarrow> real \<Rightarrow> double" where
  \<comment> \<open>the double nearest the exact result \<open>r\<close>, ties to even, with 53 bits; \<open>neg\<close> is the
     sign of an exact zero\<close>
  "round64 neg r =
     (if r = 0 then signed_zero neg
      else let x = of_int (round_half_even (r / p2 (binade r - 52))) * p2 (binade r - 52)
           in if p2 1024 \<le> \<bar>x\<bar> then signed_inf (r < 0)
              else if x = 0 then signed_zero (r < 0)
              else Fin x)"

definition isnormal :: "double \<Rightarrow> bool" where
  "isnormal a = (case a of Fin v \<Rightarrow> p2 (- 1022) \<le> \<bar>v\<bar> \<and> \<bar>v\<bar> < p2 1024 | _ \<Rightarrow> False)"

instantiation double :: "{uminus, plus, minus, times, inverse, ord}"
begin

fun uminus_double :: "double \<Rightarrow> double" where
  "uminus_double (Fin r) = (if r = 0 then NZero else Fin (- r))"
| "uminus_double NZero = Fin 0"
| "uminus_double PInf = NInf"
| "uminus_double NInf = PInf"
| "uminus_double NaN = NaN"

definition plus_double :: "double \<Rightarrow> double \<Rightarrow> double" where
  "plus_double a b =
     (if is_nan a \<or> is_nan b then NaN
      else if is_fin a then
        (if is_fin b then round64 (is_neg a \<and> is_neg b) (val a + val b) else b)
      else if is_fin b then a
      else if a = b then a
      else NaN)"

definition minus_double :: "double \<Rightarrow> double \<Rightarrow> double" where
  "minus_double a b = a + (- b)"

definition times_double :: "double \<Rightarrow> double \<Rightarrow> double" where
  "times_double a b =
     (if is_nan a \<or> is_nan b then NaN
      else if is_fin a \<and> is_fin b then round64 (is_neg a \<noteq> is_neg b) (val a * val b)
      else if is_zero a \<or> is_zero b then NaN
      else signed_inf (is_neg a \<noteq> is_neg b))"

definition divide_double :: "double \<Rightarrow> double \<Rightarrow> double" where
  "divide_double a b =
     (if is_nan a \<or> is_nan b then NaN
      else if is_fin a then
        (if is_fin b then
           (if val b = 0 then (if val a = 0 then NaN else signed_inf (is_neg a \<noteq> is_neg b))
            else round64 (is_neg a \<noteq> is_neg b) (val a / val b))
         else signed_zero (is_neg a \<noteq> is_neg b))
      else if is_fin b then signed_inf (is_neg a \<noteq> is_neg b)
      else NaN)"

definition inverse_double :: "double \<Rightarrow> double" where
  "inverse_double a = divide (Fin 1) a"

fun less_double :: "double \<Rightarrow> double \<Rightarrow> bool" where
  "less_double NaN _ = False"
| "less_double _ NaN = False"
| "less_double PInf _ = False"
| "less_double _ NInf = False"
| "less_double NInf _ = True"
| "less_double _ PInf = True"
| "less_double a b = (val a < val b)"

definition less_eq_double :: "double \<Rightarrow> double \<Rightarrow> bool" where
  "less_eq_double a b = (if is_nan a \<or> is_nan b then False else \<not> b < a)"

instance ..

end

subsection \<open>The functions of \<^verbatim>\<open>math.h\<close> and \<^verbatim>\<open>stdio.h\<close> the program calls\<close>

record libm =
  m_log10 :: "real \<Rightarrow> real"
  m_pow10 :: "int \<Rightarrow> double"
  m_sin :: "real \<Rightarrow> real"
  m_cos :: "real \<Rightarrow> real"
  m_atan2 :: "real \<Rightarrow> real \<Rightarrow> real"
  m_nan :: string

text \<open>
  \<open>m_log10 L v\<close> is \<^verbatim>\<open>log10(v)\<close> for a positive finite \<open>v\<close>, \<open>m_pow10 L k\<close> is
  \<^verbatim>\<open>pow(10.0, k)\<close>, \<open>m_sin L x\<close> and \<open>m_cos L x\<close> are \<^verbatim>\<open>sin(x)\<close> and \<^verbatim>\<open>cos(x)\<close> for a finite
  nonzero \<open>x\<close>, \<open>m_atan2 L y x\<close> is \<^verbatim>\<open>atan2(y, x)\<close> for finite nonzero \<open>y\<close> and \<open>x\<close>, and
  \<open>m_nan L\<close> is what \<^verbatim>\<open>printf\<close> prints for a NaN.
\<close>

definition M_PI :: double where
  \<comment> \<open>the double nearest \<open>\<pi>\<close>, \<^verbatim>\<open>0x1.921fb54442d18p+1\<close>\<close>
  "M_PI = Fin (884279719003555 / 2 ^ 48)"

fun modf :: "double \<Rightarrow> double \<times> double" where
  \<comment> \<open>\<^verbatim>\<open>fract = modf(value, &display)\<close> as the pair \<open>(fract, display)\<close>; both keep the sign
     of the argument\<close>
  "modf (Fin v) =
     (if 0 \<le> v then (Fin (v - of_int \<lfloor>v\<rfloor>), Fin (of_int \<lfloor>v\<rfloor>))
      else (if v + of_int \<lfloor>- v\<rfloor> = 0 then NZero else Fin (v + of_int \<lfloor>- v\<rfloor>),
            if \<lfloor>- v\<rfloor> = 0 then NZero else Fin (- of_int \<lfloor>- v\<rfloor>)))"
| "modf NZero = (NZero, NZero)"
| "modf PInf = (Fin 0, PInf)"
| "modf NInf = (NZero, NInf)"
| "modf NaN = (NaN, NaN)"

fun dsqrt :: "double \<Rightarrow> double" where
  "dsqrt (Fin r) = (if r < 0 then NaN else round64 False (sqrt r))"
| "dsqrt NZero = NZero"
| "dsqrt PInf = PInf"
| "dsqrt NInf = NaN"
| "dsqrt NaN = NaN"

fun dsin :: "libm \<Rightarrow> double \<Rightarrow> double" where
  "dsin L (Fin r) = (if r = 0 then Fin 0 else Fin (m_sin L r))"
| "dsin L NZero = NZero"
| "dsin L PInf = NaN"
| "dsin L NInf = NaN"
| "dsin L NaN = NaN"

fun dcos :: "libm \<Rightarrow> double \<Rightarrow> double" where
  "dcos L (Fin r) = (if r = 0 then Fin 1 else Fin (m_cos L r))"
| "dcos L NZero = Fin 1"
| "dcos L PInf = NaN"
| "dcos L NInf = NaN"
| "dcos L NaN = NaN"

fun fabs :: "double \<Rightarrow> double" where
  "fabs (Fin r) = Fin \<bar>r\<bar>"
| "fabs NZero = Fin 0"
| "fabs PInf = PInf"
| "fabs NInf = PInf"
| "fabs NaN = NaN"

definition with_sign :: "bool \<Rightarrow> real \<Rightarrow> double" where
  "with_sign neg r = (if neg then (if r = 0 then NZero else Fin (- r)) else Fin r)"

definition atan2 :: "libm \<Rightarrow> double \<Rightarrow> double \<Rightarrow> double" where
  \<comment> \<open>the results at zeros and infinities are the doubles nearest \<open>0\<close>, \<open>\<pi>/4\<close>, \<open>\<pi>/2\<close>,
     \<open>3\<pi>/4\<close> and \<open>\<pi>\<close>, with the sign of \<open>y\<close>\<close>
  "atan2 L y x =
     (if is_nan y \<or> is_nan x then NaN
      else if is_zero y then with_sign (is_neg y) (if is_neg x then val M_PI else 0)
      else if is_fin y then
        (if is_zero x then with_sign (is_neg y) (val M_PI / 2)
         else if is_fin x then Fin (m_atan2 L (val y) (val x))
         else with_sign (is_neg y) (if is_neg x then val M_PI else 0))
      else if is_fin x then with_sign (is_neg y) (val M_PI / 2)
      else with_sign (is_neg y)
             (if is_neg x then 2652839157010665 / 2 ^ 50 else val M_PI / 4))"

section \<open>Text output\<close>

fun dec :: "nat \<Rightarrow> string" where
  "dec n = (if n < 10 then [''0123456789'' ! n]
            else dec (n div 10) @ [''0123456789'' ! (n mod 10)])"

declare dec.simps [simp del]

definition fmt_d :: "int \<Rightarrow> string" where
  \<comment> \<open>\<^verbatim>\<open>%d\<close>\<close>
  "fmt_d i = (if i < 0 then ''-'' @ dec (nat (- i)) else dec (nat i))"

definition fixed :: "nat \<Rightarrow> real \<Rightarrow> string" where
  \<comment> \<open>the exact value of a non-negative double with \<open>p\<close> decimals, rounded to nearest, ties
     to even, as \<^verbatim>\<open>printf\<close> prints it\<close>
  "fixed p v =
     (let n = nat (round_half_even (v * 10 ^ p))
      in dec (n div 10 ^ p) @
         (if p = 0 then [] else ''.'' @ replicate (p - length (dec (n mod 10 ^ p))) CHR ''0''
                                 @ dec (n mod 10 ^ p)))"

definition fmt_f :: "libm \<Rightarrow> int \<Rightarrow> double \<Rightarrow> string" where
  \<comment> \<open>\<^verbatim>\<open>%.*f\<close>: a negative precision counts as omitted, which is 6\<close>
  "fmt_f L p a =
     (case a of
        Fin v \<Rightarrow> (if v < 0 then ''-'' else []) @ fixed (if p < 0 then 6 else nat p) \<bar>v\<bar>
      | NZero \<Rightarrow> ''-'' @ fixed (if p < 0 then 6 else nat p) 0
      | PInf \<Rightarrow> ''inf''
      | NInf \<Rightarrow> ''-inf''
      | NaN \<Rightarrow> m_nan L)"

definition snprintf :: "string \<Rightarrow> int \<Rightarrow> string \<Rightarrow> string" where
  \<comment> \<open>the buffer \<open>result\<close> after \<^verbatim>\<open>snprintf(result, rlen, ...)\<close> of the text \<open>s\<close>. \<open>rlen\<close> is
     the value of the \<^verbatim>\<open>char\<close> parameter: nothing is written when it is 0, a negative one
     becomes a \<^verbatim>\<open>size_t\<close> no text reaches, and otherwise at most \<open>rlen - 1\<close> characters are
     stored\<close>
  "snprintf result rlen s =
     (if rlen = 0 then result else if rlen < 0 then s else take (nat rlen - 1) s)"

section \<open>The formatter \<^verbatim>\<open>eng\<close>\<close>

definition PREFIX_START :: int where
  "PREFIX_START = - 24"

definition prefix :: "string list" where
  "prefix = [''y'', ''z'', ''a'', ''f'', ''p'', ''n'', ''u'', ''m'', '''',
             ''k'', ''M'', ''G'', ''T'', ''P'', ''E'', ''Z'', ''Y'']"

definition PREFIX_END :: int where
  "PREFIX_END = PREFIX_START + int ((length prefix - 1) * 3)"

definition cdiv :: "int \<Rightarrow> int \<Rightarrow> int" where
  \<comment> \<open>C's \<^verbatim>\<open>/\<close> on \<^verbatim>\<open>int\<close>: the quotient truncated towards zero\<close>
  "cdiv a b = sgn a * sgn b * (\<bar>a\<bar> div \<bar>b\<bar>)"

datatype error = Assertion_failed | Out_of_bounds

definition expof10_of :: "libm \<Rightarrow> real \<Rightarrow> int" where
  \<comment> \<open>line 100, \<^verbatim>\<open>lrint(floor(log10(value)))\<close>, for the positive normal \<open>v\<close>\<close>
  "expof10_of L v = \<lfloor>m_log10 L v\<rfloor>"

definition round_sig :: "libm \<Rightarrow> real \<Rightarrow> int \<Rightarrow> double" where
  \<comment> \<open>lines 100 to 106, for the positive normal \<open>v\<close>: the new \<open>value\<close>\<close>
  "round_sig L v digits =
     (let expof10 = expof10_of L v;
          value = Fin v * m_pow10 L (digits - 1 - expof10);
          (fract, display) = modf value;
          display = (if Fin (1 / 2) \<le> fract then display + Fin 1 else display)
      in display * m_pow10 L (expof10 - digits + 1))"

definition align :: "int \<Rightarrow> int" where
  \<comment> \<open>lines 109 to 112\<close>
  "align expof10 =
     (if 0 < expof10 then cdiv expof10 3 * 3 else cdiv (- expof10 + 3) 3 * (- 3))"

definition carry :: "libm \<Rightarrow> double \<Rightarrow> int \<Rightarrow> int \<Rightarrow> double \<times> int \<times> int" where
  \<comment> \<open>lines 114 to 122: the new \<open>(value, expof10, digits)\<close>\<close>
  "carry L value expof10 digits =
     (let value = value * m_pow10 L (- expof10)
      in if Fin 1000 \<le> value then (value / Fin 1000, expof10 + 3, digits)
         else if Fin 100 \<le> value then (value, expof10, digits - 2)
         else if Fin 10 \<le> value then (value, expof10, digits - 1)
         else (value, expof10, digits))"

definition lookup :: "'a list \<Rightarrow> int \<Rightarrow> 'a option" where
  \<comment> \<open>an array read; \<open>None\<close> outside the array\<close>
  "lookup xs i = (if 0 \<le> i \<and> i < int (length xs) then Some (xs ! nat i) else None)"

definition emit ::
  "libm \<Rightarrow> string \<Rightarrow> double \<Rightarrow> int \<Rightarrow> int \<Rightarrow> bool \<Rightarrow> string \<Rightarrow> int \<Rightarrow> error + string" where
  \<comment> \<open>lines 124 to 130\<close>
  "emit L sign value expof10 digits numeric result rlen =
     (if numeric \<or> expof10 < PREFIX_START \<or> PREFIX_END < expof10
      then Inr (snprintf result rlen (sign @ fmt_f L (digits - 1) value @ ''e'' @ fmt_d expof10))
      else case lookup prefix (cdiv (expof10 - PREFIX_START) 3) of
             None \<Rightarrow> Inl Out_of_bounds
           | Some p \<Rightarrow>
               Inr (snprintf result rlen (sign @ fmt_f L (digits - 1) value @ '' '' @ p)))"

definition mantissa :: "libm \<Rightarrow> real \<Rightarrow> int \<Rightarrow> double \<times> int \<times> int" where
  \<comment> \<open>lines 100 to 122 for the positive normal \<open>v\<close>: \<open>(value, expof10, digits)\<close> as line 124
     finds them\<close>
  "mantissa L v digits = carry L (round_sig L v digits) (align (expof10_of L v)) digits"

definition eng ::
  "libm \<Rightarrow> double \<Rightarrow> int \<Rightarrow> bool \<Rightarrow> string \<Rightarrow> 8 word \<Rightarrow> error + string" where
  \<comment> \<open>\<open>numeric\<close> is the C \<^verbatim>\<open>int\<close> read as a truth value, \<open>result\<close> the buffer before the
     call, \<open>rlen\<close> the \<^verbatim>\<open>char\<close> parameter, a signed byte as \<^verbatim>\<open>gcc\<close> has it on x86-64\<close>
  "eng L value digits numeric result rlen =
     (if \<not> isnormal value then Inl Assertion_failed
      else
        let sign = (if value < Fin 0 then ''-'' else '''');
            value = (if value < Fin 0 then - value else value);
            (value, expof10, digits) = mantissa L (val value) digits
        in emit L sign value expof10 digits numeric result (sint rlen))"

section \<open>The analyzer: lines 172 to 207 of \<^verbatim>\<open>main\<close>\<close>

datatype warning = Phi_below double | Phi_above double
  \<comment> \<open>the two warnings, each with the amount it prints\<close>

definition clamp_phi :: "double \<Rightarrow> warning list \<times> double" where
  \<comment> \<open>lines 178 to 187: the warnings printed and the new \<open>phi\<close>; \<^verbatim>\<open>1e-15\<close> is the double
     \<^verbatim>\<open>0x1.203af9ee75616p-50\<close>\<close>
  "clamp_phi phi =
     (let (ws, phi) =
            (if phi < - M_PI / Fin 2
             then ([Phi_below (phi + M_PI / Fin 2)],
                   - M_PI / Fin 2 + Fin (2535301200456459 / 2 ^ 101))
             else ([], phi))
      in if M_PI / Fin 2 < phi
         then (ws @ [Phi_above (phi - M_PI / Fin 2)],
               M_PI / Fin 2 - Fin (2535301200456459 / 2 ^ 101))
         else (ws, phi))"

definition phi_raw :: "libm \<Rightarrow> double \<Rightarrow> double \<Rightarrow> double \<Rightarrow> double \<Rightarrow> double" where
  \<comment> \<open>lines 172 and 173: \<open>phi\<close> before the clamp\<close>
  "phi_raw L freq delta_t V_in V_dut =
     (let theta = Fin 2 * M_PI * freq * delta_t
      in theta - atan2 L (- V_dut * dsin L theta) (V_in - V_dut * dcos L theta))"

record analysis =
  theta :: double
  phi :: double
  warnings :: "warning list"
  Z :: double
  Resr :: double
  X :: double
  Q :: double
  Ls :: "double option"
  Lp :: "double option"
  Cs :: "double option"
  Cp :: "double option"
  Rp :: double

definition analyze ::
  "libm \<Rightarrow> double \<Rightarrow> double \<Rightarrow> double \<Rightarrow> double \<Rightarrow> double \<Rightarrow> analysis" where
  \<comment> \<open>the values \<^verbatim>\<open>main\<close> computes from \<^verbatim>\<open>R\<close> and its four arguments; \<open>Ls\<close>, \<open>Lp\<close>,
     \<open>Cs\<close> and \<open>Cp\<close> are \<open>None\<close> in the branch that does not compute them\<close>
  "analyze L R freq delta_t V_in V_dut =
     (let theta = Fin 2 * M_PI * freq * delta_t;
          (ws, phi) = clamp_phi (phi_raw L freq delta_t V_in V_dut);
          Z = V_dut * R /
              dsqrt (V_in * V_in - Fin 2 * V_in * V_dut * dcos L theta + V_dut * V_dut);
          Resr = Z * dcos L phi;
          X = Z * dsin L phi;
          Q = fabs X / Resr
      in \<lparr>theta = theta, phi = phi, warnings = ws, Z = Z, Resr = Resr, X = X, Q = Q,
          Ls = (if Fin 0 < phi then Some (X / (Fin 2 * M_PI * freq)) else None),
          Lp = (if Fin 0 < phi then Some (X / (Fin 2 * M_PI * freq) * (Fin 1 + Fin 1 / Q / Q))
                else None),
          Cs = (if Fin 0 < phi then None else Some (Fin (- 1) / (Fin 2 * M_PI * freq * X))),
          Cp = (if Fin 0 < phi then None
                else Some (Fin (- 1) / (Fin 2 * M_PI * freq * X) / (Fin 1 + Fin 1 / Q / Q))),
          Rp = Resr * (Fin 1 + Q * Q)\<rparr>)"

section \<open>A correctly rounded \<^verbatim>\<open>libm\<close>\<close>

definition cr :: libm where
  \<comment> \<open>every function returns the double nearest its exact result; the concrete runs below
     use it\<close>
  "cr = \<lparr>m_log10 = (\<lambda>v. val (round64 False (log 10 v))),
         m_pow10 = (\<lambda>k. round64 False (p10 k)),
         m_sin = (\<lambda>x. val (round64 False (sin x))),
         m_cos = (\<lambda>x. val (round64 False (cos x))),
         m_atan2 = (\<lambda>y x. val (round64 False
                      (if 0 < x then arctan (y / x)
                       else if 0 \<le> y then arctan (y / x) + pi else arctan (y / x) - pi))),
         m_nan = ''-nan''\<rparr>"

section \<open>Lemmas on powers of two and on rounding\<close>

lemma p10_pos [simp]: "0 < p10 k"
  by (simp add: p10_def)

lemma p2_pos [simp]: "0 < p2 k"
  by (simp add: p2_def)

lemma p2_powr: "p2 k = 2 powr (real_of_int k)"
  by (simp add: p2_def powr_realpow [symmetric] powr_minus_divide)

lemma p2_add: "p2 (a + b) = p2 a * p2 b"
  by (simp add: p2_powr powr_add)

lemma p2_numeral:
  "p2 (numeral n) = 2 ^ numeral n" "p2 (- numeral n) = 1 / 2 ^ numeral n"
  "p2 0 = 1" "p2 1 = 2" "p2 (- 1) = 1 / 2"
  by (simp_all add: p2_def)

lemma p10_numeral:
  "p10 (numeral n) = 10 ^ numeral n" "p10 (- numeral n) = 1 / 10 ^ numeral n"
  "p10 0 = 1" "p10 1 = 10" "p10 (- 1) = 1 / 10"
  by (simp_all add: p10_def)

lemma floor_log2_eq: "p2 k \<le> v \<Longrightarrow> v < p2 (k + 1) \<Longrightarrow> \<lfloor>log 2 v\<rfloor> = k"
proof -
  assume a: "p2 k \<le> v" "v < p2 (k + 1)"
  have "0 < v" using a(1) p2_pos [of k] by linarith
  then show ?thesis using a floor_log_eq_powr_iff [of v 2 k] by (simp add: p2_powr)
qed

lemma binade_eq: "p2 k \<le> \<bar>r\<bar> \<Longrightarrow> \<bar>r\<bar> < p2 (k + 1) \<Longrightarrow> - 1022 \<le> k \<Longrightarrow> binade r = k"
  by (simp add: binade_def floor_log2_eq)

text \<open>Rounding a given real: the binade \<open>k\<close> and the rounded quotient \<open>n\<close> decide it.\<close>

lemma round64_eval:
  assumes "p2 k \<le> \<bar>r\<bar>" and "\<bar>r\<bar> < p2 (k + 1)" and "- 1022 \<le> k"
    and "round_half_even (r / p2 (k - 52)) = n" and "of_int n * p2 (k - 52) = x"
    and "x \<noteq> 0" and "\<bar>x\<bar> < p2 1024"
  shows "round64 s r = Fin x"
proof -
  have b: "binade r = k" using assms(1-3) by (rule binade_eq)
  have "0 < \<bar>r\<bar>" using assms(1) p2_pos [of k] by linarith
  then have r: "r \<noteq> 0" by simp
  show ?thesis using assms(4-7) r by (simp add: round64_def b Let_def)
qed

lemma rhe_int [simp]: "round_half_even (of_int n) = n"
  by (simp add: round_half_even_def)

lemma p10_powr: "p10 k = 10 powr (real_of_int k)"
  by (simp add: p10_def powr_realpow [symmetric] powr_minus_divide)

lemma p10_add: "p10 (a + b) = p10 a * p10 b"
  by (simp add: p10_powr powr_add)

lemma p2_nz [simp]: "p2 k \<noteq> 0"
  by (metis p2_pos less_irrefl)

lemma p2_mono: "a \<le> b \<Longrightarrow> p2 a \<le> p2 b"
  by (simp add: p2_powr)

lemma ln10_bounds: "1 \<le> ln (10 :: real)" "ln (10 :: real) \<le> 4"
proof -
  have "exp (1 :: real) \<le> 10" using exp_le by linarith
  then show "1 \<le> ln (10 :: real)" by (simp add: ln_ge_iff)
  have "(2 :: real) \<le> exp 1" using exp_ge_add_one_self [of "1 :: real"] by simp
  then have "(2 :: real) ^ 4 \<le> exp 1 ^ 4" by (intro power_mono) simp_all
  then have "(10 :: real) \<le> exp 4" by (simp add: exp_of_nat_mult [symmetric])
  then have "ln (10 :: real) \<le> ln (exp 4)" by (intro ln_mono) simp_all
  then show "ln (10 :: real) \<le> 4" by simp
qed

text \<open>A grid of spacing \<open>u\<close> holds every integer when \<open>u\<close> is a power of two below 1.\<close>

lemma rhe_bounds: "\<bar>of_int (round_half_even y) - y\<bar> \<le> 1 / 2"
  unfolding round_half_even_def by (auto simp: abs_if) linarith+

lemma rhe_mono_int: "of_int m \<le> y \<Longrightarrow> m \<le> round_half_even y"
  using le_floor_iff [of m y] by (auto simp: round_half_even_def)

lemma int_on_grid:
  assumes "k \<le> 0"
  shows "of_int m / p2 k = of_int (m * 2 ^ nat (- k))"
  using assms by (cases "k = 0") (simp_all add: p2_def)

lemma floor_round64:
  assumes lo: "of_int m \<le> x" and hi: "x \<le> of_int m + 1 - 1 / 2 ^ 40" and m: "\<bar>m\<bar> \<le> 1000"
  shows "\<lfloor>val (round64 s x)\<rfloor> = m"
proof (cases "x = 0")
  case True
  then have "m = 0" using lo hi by (simp add: field_simps)
  then show ?thesis using True by (simp add: round64_def signed_zero_def)
next
  case False
  define k where "k = binade x - 52"
  define n where "n = round_half_even (x / p2 k)"
  define y where "y = of_int n * p2 k"
  have "- 1000 \<le> m" "m \<le> 1000" using m by auto
  then have mr: "- 1000 \<le> (of_int m :: real)" "(of_int m :: real) \<le> 1000"
    by (simp_all only: of_int_le_iff [symmetric, where ?'a = real] of_int_numeral of_int_minus)
  have ax: "\<bar>x\<bar> < p2 10" using lo hi mr by (simp add: p2_numeral)
  have "\<lfloor>log 2 \<bar>x\<bar>\<rfloor> < 10"
  proof -
    have "log 2 \<bar>x\<bar> < 10" using ax False by (simp add: p2_powr log_less_iff)
    then show ?thesis by linarith
  qed
  then have k: "k \<le> - 43" "- 1074 \<le> k" unfolding k_def binade_def by auto
  have u: "p2 k \<le> p2 (- 43)" using k(1) by (rule p2_mono)
  have g: "of_int m / p2 k = of_int (m * 2 ^ nat (- k))" using k(1) by (intro int_on_grid) simp
  have "of_int (m * 2 ^ nat (- k)) \<le> x / p2 k"
    unfolding g [symmetric] using lo by (simp add: divide_right_mono less_imp_le)
  then have "m * 2 ^ nat (- k) \<le> n" unfolding n_def by (rule rhe_mono_int)
  then have "(of_int (m * 2 ^ nat (- k)) :: real) \<le> of_int n" by (simp only: of_int_le_iff)
  then have "of_int m / p2 k \<le> of_int n" unfolding g .
  then have ylo: "of_int m \<le> y" unfolding y_def by (simp add: pos_divide_le_eq)
  have "\<bar>of_int n - x / p2 k\<bar> \<le> 1 / 2" unfolding n_def by (rule rhe_bounds)
  then have "\<bar>of_int n - x / p2 k\<bar> * p2 k \<le> 1 / 2 * p2 k"
    by (intro mult_right_mono) (simp_all add: less_imp_le)
  moreover have "y - x = (of_int n - x / p2 k) * p2 k"
    unfolding y_def using p2_pos [of k] by (simp add: left_diff_distrib)
  ultimately have "\<bar>y - x\<bar> \<le> p2 k / 2"
    by (simp add: abs_mult abs_of_pos [OF p2_pos])
  then have "y \<le> x + p2 (- 43) / 2" using u by linarith
  then have yhi: "y < of_int m + 1" using hi by (simp add: p2_numeral)
  have ay: "\<bar>y\<bar> < p2 1024"
  proof -
    have "\<bar>y\<bar> \<le> 1001" using ylo yhi mr by linarith
    moreover have "(1001 :: real) < p2 1024" by (simp add: p2_numeral)
    ultimately show ?thesis by linarith
  qed
  have "round64 s x = (if y = 0 then signed_zero (x < 0) else Fin y)"
    using False ay by (simp add: round64_def Let_def k_def [symmetric] n_def [symmetric] y_def [symmetric])
  then have "val (round64 s x) = y" by (simp add: signed_zero_def)
  then show ?thesis using ylo yhi by (simp add: floor_eq_iff)
qed

lemma p10_nz [simp]: "p10 k \<noteq> 0"
  by (metis p10_pos less_irrefl)

lemma rhe_near: "\<bar>y - of_int j\<bar> < 1 / 2 \<Longrightarrow> round_half_even y = j"
proof -
  assume a: "\<bar>y - of_int j\<bar> < 1 / 2"
  consider "of_int j \<le> y" | "y < of_int j" by linarith
  then show ?thesis
  proof cases
    case 1
    have "\<lfloor>y\<rfloor> = j" by (rule floor_unique) (use a 1 in linarith)+
    then show ?thesis using a 1 by (simp add: round_half_even_def)
  next
    case 2
    have j1: "(of_int (j - 1) :: real) = of_int j - 1" by simp
    have "\<lfloor>y\<rfloor> = j - 1" by (rule floor_unique) (use a 2 j1 in linarith)+
    then show ?thesis using a 2 by (simp add: round_half_even_def)
  qed
qed

lemma round64_near_int:
  assumes m: "17 \<le> \<bar>m\<bar>" "\<bar>m\<bar> \<le> 1000" and x: "\<bar>x - of_int m\<bar> \<le> 1 / 2 ^ 50"
  shows "round64 s x = Fin (of_int m)"
proof -
  define k where "k = binade x - 52"
  have mr: "17 \<le> \<bar>of_int m :: real\<bar>" "\<bar>of_int m :: real\<bar> \<le> 1000"
    using m by (simp_all only: of_int_abs [symmetric] of_int_le_iff [symmetric, where ?'a = real]
        of_int_numeral)
  have "(1 :: real) / 2 ^ 50 \<le> 1" by simp
  then have x1: "\<bar>x - of_int m\<bar> \<le> 1" using x by linarith
  have "16 \<le> \<bar>x\<bar>" "\<bar>x\<bar> < 1024" using mr x1 by linarith+
  then have ax: "p2 4 \<le> \<bar>x\<bar>" "\<bar>x\<bar> < p2 10" by (simp_all add: p2_numeral)
  have x0: "x \<noteq> 0" using ax(1) by (simp add: p2_numeral)
  have "4 \<le> \<lfloor>log 2 \<bar>x\<bar>\<rfloor>"
  proof -
    have "4 \<le> log 2 \<bar>x\<bar>" using ax(1) x0 by (simp add: p2_powr le_log_iff)
    then show ?thesis by (simp add: le_floor_iff)
  qed
  moreover have "\<lfloor>log 2 \<bar>x\<bar>\<rfloor> < 10"
  proof -
    have "log 2 \<bar>x\<bar> < 10" using ax(2) x0 by (simp add: p2_powr log_less_iff)
    then show ?thesis by linarith
  qed
  ultimately have k: "- 48 \<le> k" "k \<le> - 43" unfolding k_def binade_def by auto
  have g: "of_int m / p2 k = of_int (m * 2 ^ nat (- k))" using k(2) by (intro int_on_grid) simp
  have u: "p2 (- 48) \<le> p2 k" using k(1) by (rule p2_mono)
  have "x / p2 k - of_int m / p2 k = (x - of_int m) / p2 k" by (simp add: diff_divide_distrib)
  then have "\<bar>x / p2 k - of_int m / p2 k\<bar> = \<bar>x - of_int m\<bar> / p2 k"
    by (simp add: abs_of_pos [OF p2_pos])
  also have "\<dots> \<le> (1 / 2 ^ 50) / p2 k"
    using x by (intro divide_right_mono) (simp_all add: less_imp_le)
  also have "\<dots> \<le> (1 / 2 ^ 50) / p2 (- 48)"
    using u by (intro divide_left_mono) (simp_all add: p2_numeral)
  also have "\<dots> < 1 / 2" by (simp add: p2_numeral)
  finally have "round_half_even (x / p2 k) = m * 2 ^ nat (- k)"
    unfolding g by (rule rhe_near)
  then have "of_int (round_half_even (x / p2 k)) * p2 k = of_int m / p2 k * p2 k"
    unfolding g by simp
  then have y: "of_int (round_half_even (x / p2 k)) * p2 k = of_int m" by simp
  have m0: "(of_int m :: real) \<noteq> 0" using mr by auto
  have "\<bar>of_int m :: real\<bar> < p2 1024" using mr(2) by (simp add: p2_numeral)
  then show ?thesis using x0 m0 by (simp add: round64_def Let_def k_def [symmetric] y)
qed

lemma ln_near_one:
  fixes t :: real
  assumes "\<bar>t\<bar> \<le> 1 / 2"
  shows "\<bar>ln (1 + t)\<bar> \<le> 2 * \<bar>t\<bar>"
proof (cases "0 \<le> t")
  case True
  have "ln (1 + t) \<le> t" using True by (simp add: ln_add_one_self_le_self)
  moreover have "0 \<le> ln (1 + t)" using True by simp
  ultimately show ?thesis using True by linarith
next
  case False
  then have n: "0 \<le> - t" "- t \<le> 1 / 2" using assms by auto
  have "- (- t) - 2 * (- t)\<^sup>2 \<le> ln (1 - (- t))" using n by (rule ln_one_minus_pos_lower_bound)
  moreover have "(- t)\<^sup>2 \<le> (- t) * (1 / 2)"
    unfolding power2_eq_square using n by (intro mult_left_mono) simp_all
  moreover have "ln (1 + t) \<le> 0" using False assms by simp
  ultimately show ?thesis using False by simp
qed

lemma log10_near:
  assumes "\<bar>v - p10 m\<bar> \<le> p10 m / 2 ^ 52"
  shows "\<bar>log 10 v - of_int m\<bar> \<le> 1 / 2 ^ 50"
proof -
  define t where "t = v / p10 m - 1"
  have "\<bar>v - p10 m\<bar> / p10 m \<le> (p10 m / 2 ^ 52) / p10 m"
    using assms by (intro divide_right_mono) (simp_all add: less_imp_le)
  moreover have "t = (v - p10 m) / p10 m"
    unfolding t_def by (simp add: diff_divide_distrib)
  then have "\<bar>t\<bar> = \<bar>v - p10 m\<bar> / p10 m"
    by (simp add: abs_of_pos [OF p10_pos])
  ultimately have t: "\<bar>t\<bar> \<le> 1 / 2 ^ 52" by simp
  then have th: "\<bar>t\<bar> \<le> 1 / 2" by simp
  have v: "v = p10 m * (1 + t)" unfolding t_def by (simp add: field_simps)
  have pos: "0 < 1 + t" using th by linarith
  have "log 10 v = log 10 (p10 m) + log 10 (1 + t)"
    unfolding v using pos by (simp add: log_mult)
  moreover have "log 10 (p10 m) = of_int m" by (simp add: p10_powr)
  ultimately have "log 10 v - of_int m = ln (1 + t) / ln 10" by (simp add: log_def)
  then have "\<bar>log 10 v - of_int m\<bar> = \<bar>ln (1 + t)\<bar> / ln 10"
    using ln10_bounds(1) by simp
  also have "\<dots> \<le> \<bar>ln (1 + t)\<bar> / 1"
    using ln10_bounds(1) by (intro divide_left_mono) simp_all
  also have "\<dots> \<le> 2 * \<bar>t\<bar>" using ln_near_one [OF th] by simp
  also have "\<dots> \<le> 1 / 2 ^ 50" using t by simp
  finally show ?thesis .
qed

lemma expof10_cr_near:
  assumes "17 \<le> \<bar>m\<bar>" and "\<bar>m\<bar> \<le> 1000" and "\<bar>v - p10 m\<bar> \<le> p10 m / 2 ^ 52"
  shows "expof10_of cr v = m"
  using round64_near_int [OF assms(1,2) log10_near [OF assms(3)], of False]
  by (simp add: expof10_of_def cr_def)

lemma expof10_cr:
  assumes lo: "p10 m \<le> v" and hi: "v \<le> p10 (m + 1) * (1 - 4 / 2 ^ 40)" and m: "\<bar>m\<bar> \<le> 1000"
  shows "expof10_of cr v = m"
proof -
  have v: "0 < v" using lo p10_pos [of m] by linarith
  have a: "of_int m \<le> log 10 v"
    using lo v by (simp add: le_log_iff p10_powr)
  have "1 + - (ln (10 :: real) / 2 ^ 40) \<le> exp (- (ln (10 :: real) / 2 ^ 40))"
    by (rule exp_ge_add_one_self)
  moreover have "ln (10 :: real) / 2 ^ 40 \<le> 4 / 2 ^ 40"
    using ln10_bounds(2) by (intro divide_right_mono) simp_all
  ultimately have e: "1 - 4 / 2 ^ 40 \<le> exp (- (ln (10 :: real) / 2 ^ 40))" by linarith
  have p: "exp (- (ln (10 :: real) / 2 ^ 40)) = 10 powr (- (1 / 2 ^ 40))" by (simp add: powr_def)
  have "p10 (m + 1) * (1 - 4 / 2 ^ 40) \<le> p10 (m + 1) * exp (- (ln (10 :: real) / 2 ^ 40))"
    using e by (intro mult_left_mono) (simp_all add: less_imp_le)
  then have "v \<le> p10 (m + 1) * exp (- (ln (10 :: real) / 2 ^ 40))" using hi by linarith
  then have "v \<le> p10 (m + 1) * 10 powr (- (1 / 2 ^ 40))" unfolding p .
  also have "\<dots> = 10 powr (of_int m + 1 - 1 / 2 ^ 40)"
    by (simp add: p10_powr powr_add [symmetric])
  finally have b: "log 10 v \<le> of_int m + 1 - 1 / 2 ^ 40"
    using v by (simp add: log_le_iff)
  show ?thesis
    using floor_round64 [OF a b m, of False] by (simp add: expof10_of_def cr_def)
qed

section \<open>The structure of the formatter\<close>

lemma le_fin [simp]: "(Fin a \<le> Fin b) = (a \<le> b)"
  by (auto simp: less_eq_double_def)

lemma cdiv_nonneg: "0 \<le> a \<Longrightarrow> 0 < b \<Longrightarrow> cdiv a b = a div b"
  by (cases "a = 0") (simp_all add: cdiv_def)

lemma align_mod3: "align e mod 3 = 0"
  by (simp add: align_def)

lemma carry_exp: "carry L a e d = (m, e', d') \<Longrightarrow> e' = e \<or> e' = e + 3"
  by (auto simp: carry_def Let_def split: if_splits)

lemma mantissa_exp_mod3: "mantissa L v d = (m, e', d') \<Longrightarrow> e' mod 3 = 0"
proof -
  assume "mantissa L v d = (m, e', d')"
  then have "e' = align (expof10_of L v) \<or> e' = align (expof10_of L v) + 3"
    unfolding mantissa_def by (rule carry_exp)
  then show ?thesis using align_mod3 [of "expof10_of L v"] by auto
qed

lemma prefix_index:
  assumes "PREFIX_START \<le> e" "e \<le> PREFIX_END"
  shows "0 \<le> cdiv (e - PREFIX_START) 3" "cdiv (e - PREFIX_START) 3 \<le> 16"
    "cdiv (e - PREFIX_START) 3 < int (length prefix)"
proof -
  have "cdiv (e - PREFIX_START) 3 = (e - PREFIX_START) div 3"
    using assms by (intro cdiv_nonneg) auto
  then show "0 \<le> cdiv (e - PREFIX_START) 3" "cdiv (e - PREFIX_START) 3 \<le> 16"
    "cdiv (e - PREFIX_START) 3 < int (length prefix)"
    using assms by (auto simp: PREFIX_START_def PREFIX_END_def prefix_def)
qed

lemma emit_text:
  "\<exists>rest. \<forall>sign. emit L sign m e d numeric result rlen
       = Inr (snprintf result rlen (sign @ fmt_f L (d - 1) m @ rest))"
proof (cases "numeric \<or> e < PREFIX_START \<or> PREFIX_END < e")
  case True
  then show ?thesis by (auto simp: emit_def)
next
  case False
  then obtain p where "lookup prefix (cdiv (e - PREFIX_START) 3) = Some p"
    using prefix_index [of e] by (auto simp: lookup_def)
  then show ?thesis using False by (auto simp: emit_def)
qed

lemma eng_pos: "isnormal (Fin v) \<Longrightarrow> 0 < v \<Longrightarrow> mantissa L v digits = (m, e, d) \<Longrightarrow>
    eng L (Fin v) digits numeric result rlen = emit L [] m e d numeric result (sint rlen)"
  by (simp add: eng_def)

lemma eng_neg: "isnormal (Fin v) \<Longrightarrow> 0 < v \<Longrightarrow> mantissa L v digits = (m, e, d) \<Longrightarrow>
    eng L (Fin (- v)) digits numeric result rlen = emit L ''-'' m e d numeric result (sint rlen)"
  by (simp add: eng_def isnormal_def)

lemma eng_not_oob: "eng L value digits numeric result rlen \<noteq> Inl Out_of_bounds"
proof (cases "isnormal value")
  case True
  obtain m e d where m: "mantissa L (val (if value < Fin 0 then - value else value)) digits = (m, e, d)"
    using prod_cases3 by blast
  obtain rest where "emit L (if value < Fin 0 then ''-'' else []) m e d numeric result (sint rlen)
       = Inr (snprintf result (sint rlen) ((if value < Fin 0 then ''-'' else []) @ fmt_f L (d - 1) m @ rest))"
    using emit_text [of L m e d numeric result "sint rlen"] by blast
  then show ?thesis using True m by (simp add: eng_def)
next
  case False
  then show ?thesis by (simp add: eng_def)
qed

lemma eng_sign_cut:
  assumes "isnormal (Fin v)" and "0 < v"
  shows "\<exists>body. eng L (Fin v) digits numeric result rlen = Inr (snprintf result (sint rlen) body)
      \<and> eng L (Fin (- v)) digits numeric result rlen = Inr (snprintf result (sint rlen) (''-'' @ body))"
proof -
  obtain m e d where m: "mantissa L v digits = (m, e, d)" using prod_cases3 by blast
  obtain rest where r: "\<And>sign. emit L sign m e d numeric result (sint rlen)
       = Inr (snprintf result (sint rlen) (sign @ fmt_f L (d - 1) m @ rest))"
    using emit_text [of L m e d numeric result "sint rlen"] by blast
  let ?body = "fmt_f L (d - 1) m @ rest"
  have "eng L (Fin v) digits numeric result rlen = Inr (snprintf result (sint rlen) ?body)"
    using eng_pos [OF assms m] r [of "[]"] by simp
  moreover have "eng L (Fin (- v)) digits numeric result rlen
      = Inr (snprintf result (sint rlen) (''-'' @ ?body))"
    using eng_neg [OF assms m] r [of "''-''"] by simp
  ultimately show ?thesis by blast
qed

lemma snprintf_fits:
  assumes "snprintf result rlen body = s" and "rlen < 0 \<or> int (length s) + 1 < rlen"
  shows "body = s" and "snprintf result rlen (''-'' @ body) = ''-'' @ body"
proof -
  have s: "rlen < 0 \<Longrightarrow> s = body" using assms(1) by (simp add: snprintf_def)
  have t: "0 < rlen \<Longrightarrow> s = take (nat rlen - 1) body" using assms(1) by (simp add: snprintf_def)
  show b: "body = s"
  proof (cases "rlen < 0")
    case True
    then show ?thesis using s by simp
  next
    case False
    then have r: "int (length s) + 1 < rlen" "0 < rlen" using assms(2) by auto
    have "length body \<le> nat rlen - 1"
    proof (rule ccontr)
      assume "\<not> length body \<le> nat rlen - 1"
      then have "length s = nat rlen - 1" using t [OF r(2)] by simp
      then show False using r by linarith
    qed
    then show ?thesis using t [OF r(2)] by simp
  qed
  show "snprintf result rlen (''-'' @ body) = ''-'' @ body"
    using assms(2) b by (auto simp: snprintf_def)
qed

section \<open>Evaluation of the arithmetic, step by step\<close>

lemma mul_eval:
  assumes "p2 k \<le> \<bar>a * b\<bar>" and "\<bar>a * b\<bar> < p2 (k + 1)" and "- 1022 \<le> k"
    and "round_half_even (a * b / p2 (k - 52)) = n" and "of_int n * p2 (k - 52) = x"
    and "x \<noteq> 0" and "\<bar>x\<bar> < p2 1024"
  shows "Fin a * Fin b = Fin x"
  using round64_eval [OF assms] by (simp add: times_double_def)

lemma add_eval:
  assumes "p2 k \<le> \<bar>a + b\<bar>" and "\<bar>a + b\<bar> < p2 (k + 1)" and "- 1022 \<le> k"
    and "round_half_even ((a + b) / p2 (k - 52)) = n" and "of_int n * p2 (k - 52) = x"
    and "x \<noteq> 0" and "\<bar>x\<bar> < p2 1024"
  shows "Fin a + Fin b = Fin x"
  using round64_eval [OF assms] by (simp add: plus_double_def)

lemma div_eval:
  assumes "p2 k \<le> \<bar>a / b\<bar>" and "\<bar>a / b\<bar> < p2 (k + 1)" and "- 1022 \<le> k"
    and "round_half_even (a / b / p2 (k - 52)) = n" and "of_int n * p2 (k - 52) = x"
    and "x \<noteq> 0" and "\<bar>x\<bar> < p2 1024" and "b \<noteq> 0"
  shows "Fin a / Fin b = Fin x"
  using round64_eval [OF assms(1-7)] assms(8) by (simp add: divide_double_def)

lemma pow10_eval:
  assumes "p2 k \<le> p10 j" and "p10 j < p2 (k + 1)" and "- 1022 \<le> k"
    and "round_half_even (p10 j / p2 (k - 52)) = n" and "of_int n * p2 (k - 52) = x"
    and "x \<noteq> 0" and "\<bar>x\<bar> < p2 1024"
  shows "m_pow10 cr j = Fin x"
proof -
  have "\<bar>p10 j\<bar> = p10 j" by (simp add: less_imp_le)
  then have "round64 False (p10 j) = Fin x"
    using assms by (intro round64_eval [where k = k and n = n]) simp_all
  then show ?thesis by (simp add: cr_def)
qed

lemmas num_eval = p2_numeral p10_numeral round_half_even_def

lemma replicate_numeral: "replicate (numeral k) x = x # replicate (pred_numeral k) x"
  by (simp add: numeral_eq_Suc)

lemmas text1 = emit_def PREFIX_START_def PREFIX_END_def prefix_def lookup_def cdiv_def snprintf_def
  fmt_f_def fmt_d_def fixed_def round_half_even_def Let_def

lemmas text2 = dec.simps replicate_numeral

text \<open>Results below the normal range and above the largest double.\<close>

lemma binade_sub: "r \<noteq> 0 \<Longrightarrow> \<bar>r\<bar> < p2 (- 1022) \<Longrightarrow> binade r = - 1022"
proof -
  assume r: "r \<noteq> 0" "\<bar>r\<bar> < p2 (- 1022)"
  have "log 2 \<bar>r\<bar> < - 1022" using r by (simp add: p2_powr log_less_iff)
  then have "\<lfloor>log 2 \<bar>r\<bar>\<rfloor> \<le> - 1022" by linarith
  then show ?thesis by (simp add: binade_def)
qed

lemma round64_sub_eval:
  assumes "r \<noteq> 0" and "\<bar>r\<bar> < p2 (- 1022)"
    and "round_half_even (r / p2 (- 1074)) = n" and "of_int n * p2 (- 1074) = x"
    and "x \<noteq> 0" and "\<bar>x\<bar> < p2 1024"
  shows "round64 s r = Fin x"
  using assms(1,3-6) by (simp add: round64_def binade_sub [OF assms(1,2)] Let_def)

lemma round64_underflow:
  assumes "r \<noteq> 0" and "\<bar>r\<bar> < p2 (- 1022)" and "round_half_even (r / p2 (- 1074)) = 0"
  shows "round64 s r = signed_zero (r < 0)"
proof -
  have "\<not> p2 1024 \<le> 0" by (simp add: not_le)
  then show ?thesis
    using assms(1,3) by (simp add: round64_def binade_sub [OF assms(1,2)] Let_def)
qed

lemma round64_overflow:
  assumes "p2 1024 \<le> r"
  shows "round64 s r = PInf"
proof -
  have r: "0 < r" using assms p2_pos [of 1024] by linarith
  define k where "k = \<lfloor>log 2 r\<rfloor>"
  have "p2 1024 = 2 powr 1024" by (simp add: p2_powr)
  then have "1024 \<le> log 2 r" using assms r by (simp add: le_log_iff)
  then have k: "1024 \<le> k" unfolding k_def by linarith
  have b: "binade r = k" using k r by (simp add: binade_def k_def)
  have "of_int k \<le> log 2 r" unfolding k_def by simp
  then have lo: "p2 k \<le> r" using r by (simp add: p2_powr le_log_iff)
  have "p2 52 * p2 (k - 52) \<le> r" using lo p2_add [of 52 "k - 52"] by simp
  then have "p2 52 \<le> r / p2 (k - 52)" by (simp add: pos_le_divide_eq)
  then have "of_int (2 ^ 52) \<le> r / p2 (k - 52)" by (simp add: p2_numeral)
  then have "2 ^ 52 \<le> round_half_even (r / p2 (k - 52))" by (rule rhe_mono_int)
  then have "(of_int (2 ^ 52) :: real) \<le> of_int (round_half_even (r / p2 (k - 52)))"
    by (simp only: of_int_le_iff)
  then have "p2 52 \<le> of_int (round_half_even (r / p2 (k - 52)))" by (simp add: p2_numeral)
  then have "p2 52 * p2 (k - 52) \<le> of_int (round_half_even (r / p2 (k - 52))) * p2 (k - 52)"
    by (intro mult_right_mono) (simp_all add: less_imp_le)
  then have x: "p2 k \<le> of_int (round_half_even (r / p2 (k - 52))) * p2 (k - 52)"
    using p2_add [of 52 "k - 52"] by simp
  have "p2 1024 \<le> p2 k" using k by (rule p2_mono)
  then have "p2 1024 \<le> \<bar>of_int (round_half_even (r / p2 (k - 52))) * p2 (k - 52)\<bar>"
    using x by linarith
  then show ?thesis using r by (simp add: round64_def b Let_def signed_inf_def)
qed

lemma pow10_sub_eval:
  assumes "p10 j < p2 (- 1022)"
    and "round_half_even (p10 j / p2 (- 1074)) = n" and "of_int n * p2 (- 1074) = x"
    and "x \<noteq> 0" and "\<bar>x\<bar> < p2 1024"
  shows "m_pow10 cr j = Fin x"
proof -
  have "\<bar>p10 j\<bar> = p10 j" by (simp add: less_imp_le)
  then have "round64 False (p10 j) = Fin x"
    using assms by (intro round64_sub_eval [where n = n]) simp_all
  then show ?thesis by (simp add: cr_def)
qed

lemma pow10_overflow: "p2 1024 \<le> p10 j \<Longrightarrow> m_pow10 cr j = PInf"
  by (simp add: cr_def round64_overflow)

lemma pow10_underflow:
  assumes "p10 j < p2 (- 1022)" and "round_half_even (p10 j / p2 (- 1074)) = 0"
  shows "m_pow10 cr j = Fin 0"
proof -
  have "\<bar>p10 j\<bar> = p10 j" by (simp add: less_imp_le)
  then have "round64 False (p10 j) = signed_zero (p10 j < 0)"
    using assms by (intro round64_underflow) simp_all
  moreover have "\<not> p10 j < 0" using p10_pos [of j] by (simp add: not_less less_imp_le)
  ultimately show ?thesis by (simp add: cr_def signed_zero_def)
qed

section \<open>Special values and the fields of the analysis\<close>

text \<open>Zeros, infinities and NaN in the arithmetic of the analyzer.\<close>

lemma round64_zero [simp]: "round64 s 0 = signed_zero s"
  by (simp add: round64_def)

lemma is_zero_simps [simp]:
  "is_zero (Fin r) = (r = 0)" "is_zero NZero" "\<not> is_zero PInf" "\<not> is_zero NInf" "\<not> is_zero NaN"
  by (simp_all add: is_zero_def)

lemma is_zero_signed_zero [simp]: "is_zero (signed_zero s)"
  by (simp add: signed_zero_def)

lemma signed_inf_simps [simp]:
  "\<not> is_fin (signed_inf s)" "\<not> is_nan (signed_inf s)" "\<not> is_zero (signed_inf s)"
  by (simp_all add: signed_inf_def)

lemma is_zero_cases: "is_zero a \<Longrightarrow> a = Fin 0 \<or> a = NZero"
  by (cases a) simp_all






lemma dcos_zero: "is_zero a \<Longrightarrow> dcos L a = Fin 1"
  by (cases a) simp_all

lemma not_fin_not_normal: "\<not> is_fin a \<Longrightarrow> \<not> isnormal a"
  by (cases a) (simp_all add: isnormal_def)

lemma eng_not_normal: "\<not> isnormal a \<Longrightarrow> eng L a digits numeric result rlen = Inl Assertion_failed"
  by (simp add: eng_def)

lemma le_imp_not_less: "(a :: double) \<le> b \<Longrightarrow> \<not> b < a"
  by (simp add: less_eq_double_def split: if_splits)

lemma sub_eval:
  assumes "p2 k \<le> \<bar>a - b\<bar>" and "\<bar>a - b\<bar> < p2 (k + 1)" and "- 1022 \<le> k"
    and "round_half_even ((a - b) / p2 (k - 52)) = n" and "of_int n * p2 (k - 52) = x"
    and "x \<noteq> 0" and "\<bar>x\<bar> < p2 1024"
  shows "Fin a - Fin b = Fin x"
proof (cases "b = 0")
  case True
  then show ?thesis
    using round64_eval [OF assms, of "a < 0"] by (simp add: minus_double_def plus_double_def)
next
  case False
  then show ?thesis
    using round64_eval [OF assms] by (simp add: minus_double_def plus_double_def)
qed

text \<open>The fields of the analysis.\<close>

lemma analyze_phi:
  "phi (analyze L R freq delta_t V_in V_dut) = snd (clamp_phi (phi_raw L freq delta_t V_in V_dut))"
  "warnings (analyze L R freq delta_t V_in V_dut) = fst (clamp_phi (phi_raw L freq delta_t V_in V_dut))"
  by (simp_all add: analyze_def Let_def split: prod.splits)

lemma analyze_theta:
  "theta (analyze L R freq delta_t V_in V_dut) = Fin 2 * M_PI * freq * delta_t"
  by (simp add: analyze_def Let_def split: prod.splits)

lemma analyze_Z:
  "Z (analyze L R freq delta_t V_in V_dut) =
     V_dut * R / dsqrt (V_in * V_in
                        - Fin 2 * V_in * V_dut * dcos L (theta (analyze L R freq delta_t V_in V_dut))
                        + V_dut * V_dut)"
  by (simp add: analyze_def Let_def split: prod.splits)


lemma analyze_inductive:
  assumes "a = analyze L R freq delta_t V_in V_dut" and "Fin 0 < phi a"
  shows "Ls a = Some (X a / (Fin 2 * M_PI * freq))"
    and "Lp a = Some (X a / (Fin 2 * M_PI * freq) * (Fin 1 + Fin 1 / Q a / Q a))"
    and "Cs a = None" and "Cp a = None"
proof -
  obtain ws p where c: "clamp_phi (phi_raw L freq delta_t V_in V_dut) = (ws, p)"
    by (cases "clamp_phi (phi_raw L freq delta_t V_in V_dut)")
  have "phi a = p" using c assms(1) by (simp add: analyze_def Let_def)
  then have p: "Fin 0 < p" using assms(2) by simp
  show "Ls a = Some (X a / (Fin 2 * M_PI * freq))"
    and "Lp a = Some (X a / (Fin 2 * M_PI * freq) * (Fin 1 + Fin 1 / Q a / Q a))"
    and "Cs a = None" and "Cp a = None"
    using c p unfolding assms(1) by (simp_all add: analyze_def Let_def)
qed

lemma analyze_capacitive:
  assumes "a = analyze L R freq delta_t V_in V_dut" and "\<not> Fin 0 < phi a"
  shows "Cs a = Some (Fin (- 1) / (Fin 2 * M_PI * freq * X a))"
    and "Cp a = Some (Fin (- 1) / (Fin 2 * M_PI * freq * X a) / (Fin 1 + Fin 1 / Q a / Q a))"
    and "Ls a = None" and "Lp a = None"
proof -
  obtain ws p where c: "clamp_phi (phi_raw L freq delta_t V_in V_dut) = (ws, p)"
    by (cases "clamp_phi (phi_raw L freq delta_t V_in V_dut)")
  have "phi a = p" using c assms(1) by (simp add: analyze_def Let_def)
  then have p: "\<not> Fin 0 < p" using assms(2) by simp
  show "Cs a = Some (Fin (- 1) / (Fin 2 * M_PI * freq * X a))"
    and "Cp a = Some (Fin (- 1) / (Fin 2 * M_PI * freq * X a) / (Fin 1 + Fin 1 / Q a / Q a))"
    and "Ls a = None" and "Lp a = None"
    using c p unfolding assms(1) by (simp_all add: analyze_def Let_def)
qed

text \<open>\<^verbatim>\<open>M_PI\<close> is below \<open>\<pi>\<close>: Machin's formula with the partial sums of the series of \<open>arctan\<close>.\<close>

lemma arctan_series_bounds:
  fixes x :: real
  assumes "0 \<le> x" and "x \<le> 1"
  shows "(\<Sum>i<2 * n. (- 1) ^ i * (1 / real (i * 2 + 1) * x ^ (i * 2 + 1))) \<le> arctan x"
    and "arctan x \<le> (\<Sum>i<2 * n + 1. (- 1) ^ i * (1 / real (i * 2 + 1) * x ^ (i * 2 + 1)))"
proof -
  let ?a = "\<lambda>i. 1 / real (i * 2 + 1) * x ^ (i * 2 + 1)"
  have x: "\<bar>x\<bar> \<le> 1" using assms by simp
  have z: "?a \<longlonglongrightarrow> 0" using x by (rule zeroseq_arctan_series)
  have p: "0 \<le> ?a i" for i using assms by simp
  have m: "?a (Suc i) \<le> ?a i" for i
  proof -
    have "x ^ (Suc i * 2 + 1) \<le> x ^ (i * 2 + 1)"
      using assms by (intro power_decreasing) simp_all
    moreover have "1 / real (Suc i * 2 + 1) \<le> 1 / real (i * 2 + 1)"
      by (simp add: field_simps)
    ultimately show ?thesis using assms by (intro mult_mono) simp_all
  qed
  have s: "arctan x = (\<Sum>i. (- 1) ^ i * ?a i)" using x by (rule arctan_series)
  show "(\<Sum>i<2 * n. (- 1) ^ i * ?a i) \<le> arctan x"
    unfolding s using summable_Leibniz'(2) [OF z p m] by simp
  show "arctan x \<le> (\<Sum>i<2 * n + 1. (- 1) ^ i * ?a i)"
    unfolding s using summable_Leibniz'(4) [OF z p m] by simp
qed

lemma M_PI_less_pi: "884279719003555 / 2 ^ 48 < pi"
proof -
  have a: "(\<Sum>i<12. (- 1) ^ i * (1 / real (i * 2 + 1) * (1 / 5) ^ (i * 2 + 1))) \<le> arctan (1 / 5)"
    using arctan_series_bounds(1) [of "1 / 5" 6] by simp
  have b: "arctan (1 / 239) \<le> (\<Sum>i<3. (- 1) ^ i * (1 / real (i * 2 + 1) * (1 / 239) ^ (i * 2 + 1)))"
    using arctan_series_bounds(2) [of "1 / 239" 1] by simp
  have "pi = 16 * arctan (1 / 5) - 4 * arctan (1 / 239)" using machin by simp
  then have "16 * (\<Sum>i<12. (- 1) ^ i * (1 / real (i * 2 + 1) * (1 / 5) ^ (i * 2 + 1)))
      - 4 * (\<Sum>i<3. (- 1) ^ i * (1 / real (i * 2 + 1) * (1 / 239) ^ (i * 2 + 1))) \<le> pi"
    using a b by linarith
  moreover have "884279719003555 / 2 ^ 48 < 16 * (\<Sum>i<12. (- 1) ^ i * (1 / real (i * 2 + 1) * (1 / 5) ^ (i * 2 + 1)))
      - 4 * (\<Sum>i<3. (- 1) ^ i * (1 / real (i * 2 + 1) * (1 / 239) ^ (i * 2 + 1)))"
    by (simp add: eval_nat_numeral)
  ultimately show ?thesis by linarith
qed

text \<open>Doubles are the numbers \<open>m\<cdot>2\<^sup>j\<close> with \<open>\<bar>m\<bar> < 2\<^sup>5\<^sup>3\<close> and \<open>j \<ge> -1074\<close>; rounding keeps them, and
  doubling commutes with rounding in the normal range.\<close>

lemma binade_ge: "- 1022 \<le> binade r"
  by (simp add: binade_def)

lemma binade_upper: "r \<noteq> 0 \<Longrightarrow> \<bar>r\<bar> < p2 (binade r + 1)"
proof -
  assume r: "r \<noteq> 0"
  have "log 2 \<bar>r\<bar> < of_int (\<lfloor>log 2 \<bar>r\<bar>\<rfloor> + 1)" by linarith
  also have "\<dots> \<le> of_int (binade r + 1)" by (simp add: binade_def)
  finally have "log 2 \<bar>r\<bar> < of_int (binade r + 1)" .
  then show ?thesis using r by (simp add: p2_powr log_less_iff)
qed

lemma binade_lower: "p2 (- 1022) \<le> \<bar>r\<bar> \<Longrightarrow> p2 (binade r) \<le> \<bar>r\<bar>"
proof -
  assume a: "p2 (- 1022) \<le> \<bar>r\<bar>"
  have r: "0 < \<bar>r\<bar>" using a p2_pos [of "- 1022"] by linarith
  have "- 1022 \<le> log 2 \<bar>r\<bar>" using a r by (simp add: p2_powr le_log_iff)
  then have "- 1022 \<le> \<lfloor>log 2 \<bar>r\<bar>\<rfloor>" by linarith
  then have b: "binade r = \<lfloor>log 2 \<bar>r\<bar>\<rfloor>" by (simp add: binade_def)
  have "2 powr of_int \<lfloor>log 2 \<bar>r\<bar>\<rfloor> \<le> 2 powr log 2 \<bar>r\<bar>" by (intro powr_mono) simp_all
  also have "\<dots> = \<bar>r\<bar>" using r by simp
  finally show ?thesis by (simp add: b p2_powr)
qed

lemma p2_Suc: "p2 (k + 1) = 2 * p2 k"
  using p2_add [of k 1] by (simp add: p2_numeral)

lemma p2_split: "p2 k = p2 j * p2 (k - j)"
  using p2_add [of j "k - j"] by simp

lemma binade_less: "r \<noteq> 0 \<Longrightarrow> \<bar>r\<bar> < p2 j \<Longrightarrow> - 1022 < j \<Longrightarrow> binade r < j"
proof -
  assume r: "r \<noteq> 0" "\<bar>r\<bar> < p2 j" "- 1022 < j"
  have "log 2 \<bar>r\<bar> < of_int j" using r by (simp add: p2_powr log_less_iff)
  then have "\<lfloor>log 2 \<bar>r\<bar>\<rfloor> < j" by linarith
  then show ?thesis using r(3) by (simp add: binade_def)
qed

lemma binade_double: "p2 (- 1022) \<le> \<bar>r\<bar> \<Longrightarrow> binade (2 * r) = binade r + 1"
proof -
  assume a: "p2 (- 1022) \<le> \<bar>r\<bar>"
  have r: "0 < \<bar>r\<bar>" using a p2_pos [of "- 1022"] by linarith
  have lo: "p2 (binade r) \<le> \<bar>r\<bar>" using a by (rule binade_lower)
  have hi: "\<bar>r\<bar> < p2 (binade r + 1)" using r by (intro binade_upper) auto
  have "p2 (binade r + 1) \<le> \<bar>2 * r\<bar>" using lo unfolding p2_Suc abs_mult by simp
  moreover have "\<bar>2 * r\<bar> < p2 (binade r + 1 + 1)"
    using hi unfolding p2_Suc [of "binade r + 1"] abs_mult by simp
  moreover have "- 1022 \<le> binade r + 1" using binade_ge [of r] by simp
  ultimately show ?thesis by (rule binade_eq)
qed

lemma round64_Fin_D:
  assumes "round64 s r = Fin x" and "r \<noteq> 0"
  shows "x = of_int (round_half_even (r / p2 (binade r - 52))) * p2 (binade r - 52)"
    and "\<bar>x\<bar> < p2 1024"
  using assms
  by (auto simp: round64_def Let_def signed_inf_def signed_zero_def split: if_splits)

lemma rhe_abs_le:
  assumes "\<bar>y\<bar> < of_int N"
  shows "\<bar>round_half_even y\<bar> \<le> N"
proof -
  have "\<bar>of_int (round_half_even y) - y\<bar> \<le> 1 / 2" by (rule rhe_bounds)
  then have "\<bar>(of_int (round_half_even y) :: real)\<bar> < of_int N + 1 / 2" using assms by linarith
  then have "(of_int \<bar>round_half_even y\<bar> :: real) < of_int N + 1 / 2" by simp
  then have "(of_int \<bar>round_half_even y\<bar> :: real) < of_int (N + 1)" by simp
  then have "\<bar>round_half_even y\<bar> < N + 1" by (simp only: of_int_less_iff)
  then show ?thesis by simp
qed

lemma rhe_abs_ge:
  assumes "of_int N \<le> \<bar>y\<bar>" and "0 < N"
  shows "N \<le> \<bar>round_half_even y\<bar>"
proof (cases "0 \<le> y")
  case True
  then have "N \<le> round_half_even y" using assms by (intro rhe_mono_int) simp
  then show ?thesis by simp
next
  case False
  then have y: "y \<le> - of_int N" using assms by simp
  have "round_half_even y \<le> - N"
  proof -
    have "\<lfloor>y\<rfloor> \<le> - N" using y by (simp add: floor_le_iff)
    moreover have "\<lfloor>y\<rfloor> + 1 \<le> - N" if "y - of_int \<lfloor>y\<rfloor> \<ge> 1 / 2"
    proof -
      have "of_int \<lfloor>y\<rfloor> < (of_int (- N) :: real)" using that y by simp
      then have "\<lfloor>y\<rfloor> < - N" by (simp only: of_int_less_iff)
      then show ?thesis by simp
    qed
    ultimately show ?thesis by (auto simp: round_half_even_def)
  qed
  then show ?thesis using assms(2) by simp
qed

lemma quotient_bounds:
  assumes "r \<noteq> 0"
  shows "\<bar>r / p2 (binade r - 52)\<bar> < of_int (2 ^ 53)"
    and "p2 (- 1022) \<le> \<bar>r\<bar> \<Longrightarrow> of_int (2 ^ 52) \<le> \<bar>r / p2 (binade r - 52)\<bar>"
proof -
  have u: "p2 (binade r + 1) = p2 53 * p2 (binade r - 52)"
    using p2_split [of "binade r + 1" 53] by simp
  have "\<bar>r\<bar> < p2 53 * p2 (binade r - 52)" using binade_upper [OF assms] u by simp
  then have "\<bar>r\<bar> / p2 (binade r - 52) < p2 53" by (simp add: pos_divide_less_eq)
  then show "\<bar>r / p2 (binade r - 52)\<bar> < of_int (2 ^ 53)"
    by (simp add: p2_numeral abs_of_pos [OF p2_pos])
  assume a: "p2 (- 1022) \<le> \<bar>r\<bar>"
  have v: "p2 (binade r) = p2 52 * p2 (binade r - 52)"
    by (rule p2_split)
  have "p2 52 * p2 (binade r - 52) \<le> \<bar>r\<bar>" using binade_lower [OF a] v by simp
  then have "p2 52 \<le> \<bar>r\<bar> / p2 (binade r - 52)" by (simp add: pos_le_divide_eq)
  then show "of_int (2 ^ 52) \<le> \<bar>r / p2 (binade r - 52)\<bar>"
    by (simp add: p2_numeral abs_of_pos [OF p2_pos])
qed

lemma round64_normal:
  assumes "p2 (- 1022) \<le> \<bar>r\<bar>" and "\<bar>r\<bar> < p2 j" and "j \<le> 1023"
  shows "\<exists>x. round64 s r = Fin x \<and> x \<noteq> 0 \<and> \<bar>x\<bar> \<le> p2 j"
proof -
  have "0 < \<bar>r\<bar>" using assms(1) p2_pos [of "- 1022"] by linarith
  then have r: "r \<noteq> 0" by simp
  define k where "k = binade r"
  define n where "n = round_half_even (r / p2 (k - 52))"
  define x where "x = of_int n * p2 (k - 52)"
  have "p2 (- 1022) < p2 j" using assms(1,2) by linarith
  then have "- 1022 < j" using p2_mono [of j "- 1022"] by (cases "- 1022 < j") auto
  then have kj: "k + 1 \<le> j" unfolding k_def using binade_less [OF r assms(2)] by simp
  have "\<bar>n\<bar> \<le> 2 ^ 53" unfolding n_def k_def using quotient_bounds(1) [OF r] by (rule rhe_abs_le)
  then have "(of_int \<bar>n\<bar> :: real) \<le> of_int (2 ^ 53)" by (simp only: of_int_le_iff)
  then have nu: "\<bar>of_int n :: real\<bar> \<le> p2 53" by (simp add: p2_numeral)
  have "2 ^ 52 \<le> \<bar>n\<bar>"
    unfolding n_def k_def using quotient_bounds(2) [OF r assms(1)] by (intro rhe_abs_ge) simp_all
  then have n0: "n \<noteq> 0" by auto
  then have x0: "x \<noteq> 0" by (simp add: x_def)
  have "\<bar>x\<bar> = \<bar>of_int n\<bar> * p2 (k - 52)" by (simp add: x_def abs_mult abs_of_pos [OF p2_pos])
  also have "\<dots> \<le> p2 53 * p2 (k - 52)" using nu by (intro mult_right_mono) (simp_all add: less_imp_le)
  also have "\<dots> = p2 (k + 1)" using p2_split [of "k + 1" 53] by simp
  also have "\<dots> \<le> p2 j" using kj by (rule p2_mono)
  finally have xj: "\<bar>x\<bar> \<le> p2 j" .
  have "p2 j \<le> p2 1023" using assms(3) by (rule p2_mono)
  moreover have "p2 1023 < p2 1024" by (simp add: p2_numeral)
  ultimately have "\<bar>x\<bar> < p2 1024" using xj by linarith
  then have "round64 s r = Fin x"
    using r x0 by (simp add: round64_def Let_def k_def [symmetric] n_def [symmetric] x_def [symmetric])
  then show ?thesis using x0 xj by blast
qed

lemma round64_double:
  assumes "round64 s r = Fin x" and "p2 (- 1022) \<le> \<bar>r\<bar>" and "x \<noteq> 0" and "\<bar>2 * x\<bar> < p2 1024"
  shows "round64 s' (2 * r) = Fin (2 * x)"
proof -
  have "0 < \<bar>r\<bar>" using assms(2) p2_pos [of "- 1022"] by linarith
  then have r: "r \<noteq> 0" by simp
  have b: "binade (2 * r) = binade r + 1" using assms(2) by (rule binade_double)
  have u: "p2 (binade r - 51) = 2 * p2 (binade r - 52)"
    using p2_Suc [of "binade r - 52"] by simp
  have x: "x = of_int (round_half_even (r / p2 (binade r - 52))) * p2 (binade r - 52)"
    using assms(1) r by (rule round64_Fin_D)
  have "of_int (round_half_even (2 * r / p2 (binade (2 * r) - 52))) * p2 (binade (2 * r) - 52)
      = 2 * x"
    by (simp add: b u x)
  then show ?thesis using r assms(3,4) by (simp add: round64_def Let_def)
qed

lemma round64_grid:
  assumes "x = of_int m * p2 j" and "\<bar>m\<bar> < 2 ^ 53" and "- 1074 \<le> j"
    and "x \<noteq> 0" and "\<bar>x\<bar> < p2 1024"
  shows "round64 s x = Fin x"
proof -
  define k where "k = binade x - 52"
  have "(of_int \<bar>m\<bar> :: real) < of_int (2 ^ 53)" using assms(2) by (simp only: of_int_less_iff)
  then have "\<bar>of_int m :: real\<bar> < p2 53" by (simp add: p2_numeral)
  then have "\<bar>of_int m :: real\<bar> * p2 j < p2 53 * p2 j"
    by (intro mult_strict_right_mono) simp_all
  moreover have "p2 (j + 53) = p2 53 * p2 j" using p2_split [of "j + 53" 53] by simp
  ultimately have "\<bar>x\<bar> < p2 (j + 53)"
    by (simp add: assms(1) abs_mult abs_of_pos [OF p2_pos])
  then have "binade x < j + 53" using assms(3,4) by (intro binade_less) simp_all
  then have kj: "k \<le> j" by (simp add: k_def)
  have "p2 j = p2 (j - k) * p2 k" using p2_add [of "j - k" k] by simp
  moreover have "p2 (j - k) = of_int (2 ^ nat (j - k))" using kj by (simp add: p2_def)
  ultimately have "x / p2 k = of_int (m * 2 ^ nat (j - k))" by (simp add: assms(1))
  then have "of_int (round_half_even (x / p2 k)) * p2 k = x"
    by (simp only: rhe_int) (simp add: assms(1) \<open>p2 j = p2 (j - k) * p2 k\<close> \<open>p2 (j - k) = of_int (2 ^ nat (j - k))\<close>)
  then show ?thesis using assms(4,5) by (simp add: round64_def Let_def k_def [symmetric])
qed

lemma round64_on_grid:
  assumes "round64 s r = Fin x" and "r \<noteq> 0"
  shows "\<exists>m j. x = of_int m * p2 j \<and> \<bar>m\<bar> < 2 ^ 53 \<and> - 1074 \<le> j"
proof -
  define k where "k = binade r - 52"
  define n where "n = round_half_even (r / p2 k)"
  have x: "x = of_int n * p2 k" unfolding n_def k_def using assms by (rule round64_Fin_D)
  have k: "- 1074 \<le> k" using binade_ge [of r] by (simp add: k_def)
  have n: "\<bar>n\<bar> \<le> 2 ^ 53" unfolding n_def k_def using quotient_bounds(1) [OF assms(2)] by (rule rhe_abs_le)
  show ?thesis
  proof (cases "\<bar>n\<bar> = 2 ^ 53")
    case False
    then have "\<bar>n\<bar> < 2 ^ 53" using n by simp
    then show ?thesis using x k by blast
  next
    case True
    have "even (2 ^ 53 :: int)" by simp
    then have "even \<bar>n\<bar>" using True by simp
    then have "even n" by simp
    then obtain q where q: "n = 2 * q" by (elim evenE)
    have "\<bar>q\<bar> < 2 ^ 53" using True by (simp add: q abs_mult)
    moreover have "(of_int n :: real) = 2 * of_int q" by (simp add: q)
    moreover have "p2 (k + 1) = 2 * p2 k" by (rule p2_Suc)
    ultimately have "x = of_int q * p2 (k + 1)" "\<bar>q\<bar> < 2 ^ 53" by (simp_all add: x)
    moreover have "- 1074 \<le> k + 1" using k by simp
    ultimately show ?thesis by blast
  qed
qed

lemma round64_again:
  assumes "round64 s r = Fin x" and "r \<noteq> 0" and "x \<noteq> 0"
  shows "round64 s' x = Fin x" and "round64 s' (- x) = Fin (- x)"
proof -
  obtain m j where g: "x = of_int m * p2 j" "\<bar>m\<bar> < 2 ^ 53" "- 1074 \<le> j"
    using round64_on_grid [OF assms(1,2)] by blast
  have b: "\<bar>x\<bar> < p2 1024" using assms(1,2) by (rule round64_Fin_D)
  show "round64 s' x = Fin x" using g assms(3) b by (rule round64_grid)
  have "- x = of_int (- m) * p2 j" by (simp add: g(1))
  moreover have "\<bar>- m\<bar> < 2 ^ 53" using g(2) by simp
  ultimately show "round64 s' (- x) = Fin (- x)"
    using g(3) assms(3) b by (intro round64_grid [where m = "- m" and j = j]) simp_all
qed

section \<open>Runs of the formatter\<close>

text \<open>Runs of lines 100 to 122 with the correctly rounded \<^verbatim>\<open>libm\<close>, step by step.\<close>

lemma steps_y: "mantissa cr (8166776806102523 / 2 ^ 132) 4 = (Fin (3 / 2 ^ 1), (- 24), 4)"
proof -
  have f1: "expof10_of cr (8166776806102523 / 2 ^ 132) = (- 24)"
    by (rule expof10_cr) (simp_all add: num_eval)
  have f2: "m_pow10 cr 27 = Fin (3637978807091713 * 2 ^ 38)"
    by (rule pow10_eval [where k = 89 and n = 7275957614183426]) (simp_all add: num_eval)
  have f3: "Fin (8166776806102523 / 2 ^ 132) * Fin (3637978807091713 * 2 ^ 38) = Fin 1500"
    by (rule mul_eval [where k = 10 and n = 6597069766656000]) (simp_all add: num_eval)
  have f4: "m_pow10 cr (- 27) = Fin (348449143727041 / 2 ^ 138)"
    by (rule pow10_eval [where k = "- 90" and n = 5575186299632656]) (simp_all add: num_eval)
  have f5: "Fin 1500 * Fin (348449143727041 / 2 ^ 138) = Fin (8166776806102523 / 2 ^ 132)"
    by (rule mul_eval [where k = "- 80" and n = 8166776806102523]) (simp_all add: num_eval)
  have f6: "Fin 1500 / Fin 1000 = Fin (3 / 2 ^ 1)"
    by (rule div_eval [where k = 0 and n = 6755399441055744]) (simp_all add: num_eval)
  show ?thesis
    using f1 f2 f3 f4 f5 f6
    by (simp add: mantissa_def round_sig_def carry_def align_def cdiv_def Let_def less_eq_double_def)
qed

lemma normal_y: "isnormal (Fin (8166776806102523 / 2 ^ 132))"
  by (simp add: isnormal_def p2_numeral)

lemma steps_Y: "mantissa cr (5587935447692871 * 2 ^ 28) 4 = (Fin (6755399441055743 / 2 ^ 52), 24, 4)"
proof -
  have f1: "expof10_of cr (5587935447692871 * 2 ^ 28) = 24"
    by (rule expof10_cr) (simp_all add: num_eval)
  have f2: "m_pow10 cr (- 21) = Fin (5316911983139663 / 2 ^ 122)"
    by (rule pow10_eval [where k = "- 70" and n = 5316911983139663]) (simp_all add: num_eval)
  have f3: "Fin (5587935447692871 * 2 ^ 28) * Fin (5316911983139663 / 2 ^ 122) = Fin (6597069766655999 / 2 ^ 42)"
    by (rule mul_eval [where k = 10 and n = 6597069766655999]) (simp_all add: num_eval)
  have f4: "Fin 1499 + Fin 1 = Fin 1500"
    by (rule add_eval [where k = 10 and n = 6597069766656000]) (simp_all add: num_eval)
  have f5: "m_pow10 cr 21 = Fin (476837158203125 * 2 ^ 21)"
    by (rule pow10_eval [where k = 69 and n = 7629394531250000]) (simp_all add: num_eval)
  have f6: "Fin 1500 * Fin (476837158203125 * 2 ^ 21) = Fin (5587935447692871 * 2 ^ 28)"
    by (rule mul_eval [where k = 80 and n = 5587935447692871]) (simp_all add: num_eval)
  have f7: "m_pow10 cr (- 24) = Fin (5444517870735015 / 2 ^ 132)"
    by (rule pow10_eval [where k = "- 80" and n = 5444517870735015]) (simp_all add: num_eval)
  have f8: "Fin (5587935447692871 * 2 ^ 28) * Fin (5444517870735015 / 2 ^ 132) = Fin (6755399441055743 / 2 ^ 52)"
    by (rule mul_eval [where k = 0 and n = 6755399441055743]) (simp_all add: num_eval)
  show ?thesis
    using f1 f2 f3 f4 f5 f6 f7 f8
    by (simp add: mantissa_def round_sig_def carry_def align_def cdiv_def Let_def less_eq_double_def)
qed

lemma normal_Y: "isnormal (Fin (5587935447692871 * 2 ^ 28))"
  by (simp add: isnormal_def p2_numeral)

lemma steps_below: "mantissa cr (1045347431181123 / 2 ^ 139) 4 = (Fin (3 / 2 ^ 1), (- 27), 4)"
proof -
  have f1: "expof10_of cr (1045347431181123 / 2 ^ 139) = (- 27)"
    by (rule expof10_cr) (simp_all add: num_eval)
  have f2: "m_pow10 cr 30 = Fin (3552713678800501 * 2 ^ 48)"
    by (rule pow10_eval [where k = 99 and n = 7105427357601002]) (simp_all add: num_eval)
  have f3: "Fin (1045347431181123 / 2 ^ 139) * Fin (3552713678800501 * 2 ^ 48) = Fin 1500"
    by (rule mul_eval [where k = 10 and n = 6597069766656000]) (simp_all add: num_eval)
  have f4: "m_pow10 cr (- 30) = Fin (178405961588245 / 2 ^ 147)"
    by (rule pow10_eval [where k = "- 100" and n = 5708990770823840]) (simp_all add: num_eval)
  have f5: "Fin 1500 * Fin (178405961588245 / 2 ^ 147) = Fin (1045347431181123 / 2 ^ 139)"
    by (rule mul_eval [where k = "- 90" and n = 8362779449448984]) (simp_all add: num_eval)
  have f6: "Fin 1500 / Fin 1000 = Fin (3 / 2 ^ 1)"
    by (rule div_eval [where k = 0 and n = 6755399441055744]) (simp_all add: num_eval)
  show ?thesis
    using f1 f2 f3 f4 f5 f6
    by (simp add: mantissa_def round_sig_def carry_def align_def cdiv_def Let_def less_eq_double_def)
qed

lemma normal_below: "isnormal (Fin (1045347431181123 / 2 ^ 139))"
  by (simp add: isnormal_def p2_numeral)

lemma steps_above: "mantissa cr (5456968210637569 * 2 ^ 38) 4 = (Fin (3 / 2 ^ 1), 27, 4)"
proof -
  have f1: "expof10_of cr (5456968210637569 * 2 ^ 38) = 27"
    by (rule expof10_cr) (simp_all add: num_eval)
  have f2: "m_pow10 cr (- 24) = Fin (5444517870735015 / 2 ^ 132)"
    by (rule pow10_eval [where k = "- 80" and n = 5444517870735015]) (simp_all add: num_eval)
  have f3: "Fin (5456968210637569 * 2 ^ 38) * Fin (5444517870735015 / 2 ^ 132) = Fin (6597069766655999 / 2 ^ 42)"
    by (rule mul_eval [where k = 10 and n = 6597069766655999]) (simp_all add: num_eval)
  have f4: "Fin 1499 + Fin 1 = Fin 1500"
    by (rule add_eval [where k = 10 and n = 6597069766656000]) (simp_all add: num_eval)
  have f5: "m_pow10 cr 24 = Fin (1862645149230957 * 2 ^ 29)"
    by (rule pow10_eval [where k = 79 and n = 7450580596923828]) (simp_all add: num_eval)
  have f6: "Fin 1500 * Fin (1862645149230957 * 2 ^ 29) = Fin (5456968210637569 * 2 ^ 38)"
    by (rule mul_eval [where k = 90 and n = 5456968210637569]) (simp_all add: num_eval)
  have f7: "m_pow10 cr (- 27) = Fin (348449143727041 / 2 ^ 138)"
    by (rule pow10_eval [where k = "- 90" and n = 5575186299632656]) (simp_all add: num_eval)
  have f8: "Fin (5456968210637569 * 2 ^ 38) * Fin (348449143727041 / 2 ^ 138) = Fin (3 / 2 ^ 1)"
    by (rule mul_eval [where k = 0 and n = 6755399441055744]) (simp_all add: num_eval)
  show ?thesis
    using f1 f2 f3 f4 f5 f6 f7 f8
    by (simp add: mantissa_def round_sig_def carry_def align_def cdiv_def Let_def less_eq_double_def)
qed

lemma normal_above: "isnormal (Fin (5456968210637569 * 2 ^ 38))"
  by (simp add: isnormal_def p2_numeral)

lemma steps_k21: "mantissa cr (5316911983139663 / 2 ^ 122) 4 = (Fin (8796093022207999 / 2 ^ 43), (- 24), 2)"
proof -
  have f1: "expof10_of cr (5316911983139663 / 2 ^ 122) = (- 21)"
    by (rule expof10_cr_near) (simp_all add: num_eval)
  have f2: "m_pow10 cr 24 = Fin (1862645149230957 * 2 ^ 29)"
    by (rule pow10_eval [where k = 79 and n = 7450580596923828]) (simp_all add: num_eval)
  have f3: "Fin (5316911983139663 / 2 ^ 122) * Fin (1862645149230957 * 2 ^ 29) = Fin (8796093022207999 / 2 ^ 43)"
    by (rule mul_eval [where k = 9 and n = 8796093022207999]) (simp_all add: num_eval)
  have f4: "Fin 999 + Fin 1 = Fin 1000"
    by (rule add_eval [where k = 9 and n = 8796093022208000]) (simp_all add: num_eval)
  have f5: "m_pow10 cr (- 24) = Fin (5444517870735015 / 2 ^ 132)"
    by (rule pow10_eval [where k = "- 80" and n = 5444517870735015]) (simp_all add: num_eval)
  have f6: "Fin 1000 * Fin (5444517870735015 / 2 ^ 132) = Fin (5316911983139663 / 2 ^ 122)"
    by (rule mul_eval [where k = "- 70" and n = 5316911983139663]) (simp_all add: num_eval)
  show ?thesis
    using f1 f2 f3 f4 f5 f6
    by (simp add: mantissa_def round_sig_def carry_def align_def cdiv_def Let_def less_eq_double_def)
qed

lemma normal_k21: "isnormal (Fin (5316911983139663 / 2 ^ 122))"
  by (simp add: isnormal_def p2_numeral)

lemma steps_M: "mantissa cr 999960 3 = (Fin 1, 6, 3)"
proof -
  have f1: "expof10_of cr 999960 = 5"
    by (rule expof10_cr) (simp_all add: num_eval)
  have f2: "m_pow10 cr (- 3) = Fin (1152921504606847 / 2 ^ 60)"
    by (rule pow10_eval [where k = "- 10" and n = 4611686018427388]) (simp_all add: num_eval)
  have f3: "Fin 999960 * Fin (1152921504606847 / 2 ^ 60) = Fin (1099467647310889 / 2 ^ 40)"
    by (rule mul_eval [where k = 9 and n = 8795741178487112]) (simp_all add: num_eval)
  have f4: "Fin 999 + Fin 1 = Fin 1000"
    by (rule add_eval [where k = 9 and n = 8796093022208000]) (simp_all add: num_eval)
  have f5: "m_pow10 cr 3 = Fin 1000"
    by (rule pow10_eval [where k = 9 and n = 8796093022208000]) (simp_all add: num_eval)
  have f6: "Fin 1000 * Fin 1000 = Fin 1000000"
    by (rule mul_eval [where k = 19 and n = 8589934592000000]) (simp_all add: num_eval)
  have f7: "Fin 1000000 * Fin (1152921504606847 / 2 ^ 60) = Fin 1000"
    by (rule mul_eval [where k = 9 and n = 8796093022208000]) (simp_all add: num_eval)
  have f8: "Fin 1000 / Fin 1000 = Fin 1"
    by (rule div_eval [where k = 0 and n = 4503599627370496]) (simp_all add: num_eval)
  show ?thesis
    using f1 f2 f3 f4 f5 f6 f7 f8
    by (simp add: mantissa_def round_sig_def carry_def align_def cdiv_def Let_def less_eq_double_def)
qed

lemma normal_M: "isnormal (Fin 999960)"
  by (simp add: isnormal_def p2_numeral)

lemma steps_one: "mantissa cr 1 4 = (Fin 1, 0, 4)"
proof -
  have f1: "expof10_of cr 1 = 0"
    by (rule expof10_cr) (simp_all add: num_eval)
  have f2: "m_pow10 cr 3 = Fin 1000"
    by (rule pow10_eval [where k = 9 and n = 8796093022208000]) (simp_all add: num_eval)
  have f3: "Fin 1 * Fin 1000 = Fin 1000"
    by (rule mul_eval [where k = 9 and n = 8796093022208000]) (simp_all add: num_eval)
  have f4: "m_pow10 cr (- 3) = Fin (1152921504606847 / 2 ^ 60)"
    by (rule pow10_eval [where k = "- 10" and n = 4611686018427388]) (simp_all add: num_eval)
  have f5: "Fin 1000 * Fin (1152921504606847 / 2 ^ 60) = Fin 1"
    by (rule mul_eval [where k = 0 and n = 4503599627370496]) (simp_all add: num_eval)
  have f6: "Fin 1000 / Fin 1000 = Fin 1"
    by (rule div_eval [where k = 0 and n = 4503599627370496]) (simp_all add: num_eval)
  show ?thesis
    using f1 f2 f3 f4 f5 f6
    by (simp add: mantissa_def round_sig_def carry_def align_def cdiv_def Let_def less_eq_double_def)
qed

lemma normal_one: "isnormal (Fin 1)"
  by (simp add: isnormal_def p2_numeral)

lemma steps_five: "mantissa cr 5 4 = (Fin 5, 0, 4)"
proof -
  have f1: "expof10_of cr 5 = 0"
    by (rule expof10_cr) (simp_all add: num_eval)
  have f2: "m_pow10 cr 3 = Fin 1000"
    by (rule pow10_eval [where k = 9 and n = 8796093022208000]) (simp_all add: num_eval)
  have f3: "Fin 5 * Fin 1000 = Fin 5000"
    by (rule mul_eval [where k = 12 and n = 5497558138880000]) (simp_all add: num_eval)
  have f4: "m_pow10 cr (- 3) = Fin (1152921504606847 / 2 ^ 60)"
    by (rule pow10_eval [where k = "- 10" and n = 4611686018427388]) (simp_all add: num_eval)
  have f5: "Fin 5000 * Fin (1152921504606847 / 2 ^ 60) = Fin 5"
    by (rule mul_eval [where k = 2 and n = 5629499534213120]) (simp_all add: num_eval)
  have f6: "Fin 5000 / Fin 1000 = Fin 5"
    by (rule div_eval [where k = 2 and n = 5629499534213120]) (simp_all add: num_eval)
  show ?thesis
    using f1 f2 f3 f4 f5 f6
    by (simp add: mantissa_def round_sig_def carry_def align_def cdiv_def Let_def less_eq_double_def)
qed

lemma normal_five: "isnormal (Fin 5)"
  by (simp add: isnormal_def p2_numeral)

lemma steps_tiny: "mantissa cr (6325070415853457 / 2 ^ 1070) 4 = (PInf, (- 306), 4)"
proof -
  have f1: "expof10_of cr (6325070415853457 / 2 ^ 1070) = (- 307)"
    by (rule expof10_cr) (simp_all add: num_eval)
  have f2: "m_pow10 cr 310 = PInf"
    by (rule pow10_overflow) (simp add: num_eval)
  have f3: "Fin (6325070415853457 / 2 ^ 1070) * PInf = PInf"
    by (simp add: times_double_def plus_double_def divide_double_def is_zero_def signed_inf_def signed_zero_def)
  have f4: "m_pow10 cr (- 310) = Fin (20240225330731 / 2 ^ 1074)"
    by (rule pow10_sub_eval [where n = 20240225330731]) (simp_all add: num_eval)
  have f5: "PInf * Fin (20240225330731 / 2 ^ 1074) = PInf"
    by (simp add: times_double_def plus_double_def divide_double_def is_zero_def signed_inf_def signed_zero_def)
  have f6: "m_pow10 cr 309 = PInf"
    by (rule pow10_overflow) (simp add: num_eval)
  have f7: "PInf * PInf = PInf"
    by (simp add: times_double_def plus_double_def divide_double_def is_zero_def signed_inf_def signed_zero_def)
  have f8: "PInf / Fin 1000 = PInf"
    by (simp add: times_double_def plus_double_def divide_double_def is_zero_def signed_inf_def signed_zero_def)
  show ?thesis
    using f1 f2 f3 f4 f5 f6 f7 f8
    by (simp add: mantissa_def round_sig_def carry_def align_def cdiv_def Let_def less_eq_double_def)
qed

lemma normal_tiny: "isnormal (Fin (6325070415853457 / 2 ^ 1070))"
  by (simp add: isnormal_def p2_numeral)

lemma rounded_tiny: "round_sig cr (6325070415853457 / 2 ^ 1070) 4 = PInf"
proof -
  have f1: "expof10_of cr (6325070415853457 / 2 ^ 1070) = (- 307)"
    by (rule expof10_cr) (simp_all add: num_eval)
  have f2: "m_pow10 cr 310 = PInf"
    by (rule pow10_overflow) (simp add: num_eval)
  have f3: "Fin (6325070415853457 / 2 ^ 1070) * PInf = PInf"
    by (simp add: times_double_def plus_double_def divide_double_def is_zero_def signed_inf_def signed_zero_def)
  have f4: "m_pow10 cr (- 310) = Fin (20240225330731 / 2 ^ 1074)"
    by (rule pow10_sub_eval [where n = 20240225330731]) (simp_all add: num_eval)
  have f5: "PInf * Fin (20240225330731 / 2 ^ 1074) = PInf"
    by (simp add: times_double_def plus_double_def divide_double_def is_zero_def signed_inf_def signed_zero_def)
  show ?thesis
    using f1 f2 f3 f4 f5
    by (simp add: round_sig_def Let_def less_eq_double_def)
qed

lemma rounded_tie: "round_sig cr (1 / 2 ^ 3) 2 = Fin (1170935903116329 / 2 ^ 53)"
proof -
  have f1: "expof10_of cr (1 / 2 ^ 3) = (- 1)"
    by (rule expof10_cr) (simp_all add: num_eval)
  have f2: "m_pow10 cr 2 = Fin 100"
    by (rule pow10_eval [where k = 6 and n = 7036874417766400]) (simp_all add: num_eval)
  have f3: "Fin (1 / 2 ^ 3) * Fin 100 = Fin (25 / 2 ^ 1)"
    by (rule mul_eval [where k = 3 and n = 7036874417766400]) (simp_all add: num_eval)
  have f4: "Fin 12 + Fin 1 = Fin 13"
    by (rule add_eval [where k = 3 and n = 7318349394477056]) (simp_all add: num_eval)
  have f5: "m_pow10 cr (- 2) = Fin (5764607523034235 / 2 ^ 59)"
    by (rule pow10_eval [where k = "- 7" and n = 5764607523034235]) (simp_all add: num_eval)
  have f6: "Fin 13 * Fin (5764607523034235 / 2 ^ 59) = Fin (1170935903116329 / 2 ^ 53)"
    by (rule mul_eval [where k = "- 3" and n = 4683743612465316]) (simp_all add: num_eval)
  show ?thesis
    using f1 f2 f3 f4 f5 f6
    by (simp add: round_sig_def Let_def less_eq_double_def)
qed

lemma rounded_M: "round_sig cr 999960 3 = Fin 1000000"
proof -
  have f1: "expof10_of cr 999960 = 5"
    by (rule expof10_cr) (simp_all add: num_eval)
  have f2: "m_pow10 cr (- 3) = Fin (1152921504606847 / 2 ^ 60)"
    by (rule pow10_eval [where k = "- 10" and n = 4611686018427388]) (simp_all add: num_eval)
  have f3: "Fin 999960 * Fin (1152921504606847 / 2 ^ 60) = Fin (1099467647310889 / 2 ^ 40)"
    by (rule mul_eval [where k = 9 and n = 8795741178487112]) (simp_all add: num_eval)
  have f4: "Fin 999 + Fin 1 = Fin 1000"
    by (rule add_eval [where k = 9 and n = 8796093022208000]) (simp_all add: num_eval)
  have f5: "m_pow10 cr 3 = Fin 1000"
    by (rule pow10_eval [where k = 9 and n = 8796093022208000]) (simp_all add: num_eval)
  have f6: "Fin 1000 * Fin 1000 = Fin 1000000"
    by (rule mul_eval [where k = 19 and n = 8589934592000000]) (simp_all add: num_eval)
  show ?thesis
    using f1 f2 f3 f4 f5 f6
    by (simp add: round_sig_def Let_def less_eq_double_def)
qed

lemma scaled_y5: "expof10_of cr (5444517870735015 / 2 ^ 132) = (- 24) \<and> Fin (5444517870735015 / 2 ^ 132) * m_pow10 cr (5 - 1 - (- 24)) = Fin (5497558138879999 / 2 ^ 39)"
proof -
  have f1: "expof10_of cr (5444517870735015 / 2 ^ 132) = (- 24)"
    by (rule expof10_cr_near) (simp_all add: num_eval)
  have f2: "m_pow10 cr 28 = Fin (4547473508864641 * 2 ^ 41)"
    by (rule pow10_eval [where k = 93 and n = 4547473508864641]) (simp_all add: num_eval)
  have f3: "Fin (5444517870735015 / 2 ^ 132) * Fin (4547473508864641 * 2 ^ 41) = Fin (5497558138879999 / 2 ^ 39)"
    by (rule mul_eval [where k = 13 and n = 5497558138879999]) (simp_all add: num_eval)
  show ?thesis
    using f1 f2 f3
    by simp
qed

lemma carry_steps_M: "expof10_of cr 999960 = 5 \<and> Fin 1000000 * m_pow10 cr (- 3) = Fin 1000 \<and> Fin 1000 / Fin 1000 = Fin 1"
proof -
  have f1: "expof10_of cr 999960 = 5"
    by (rule expof10_cr) (simp_all add: num_eval)
  have f2: "m_pow10 cr (- 3) = Fin (1152921504606847 / 2 ^ 60)"
    by (rule pow10_eval [where k = "- 10" and n = 4611686018427388]) (simp_all add: num_eval)
  have f3: "Fin 1000000 * Fin (1152921504606847 / 2 ^ 60) = Fin 1000"
    by (rule mul_eval [where k = 9 and n = 8796093022208000]) (simp_all add: num_eval)
  have f4: "Fin 1000 / Fin 1000 = Fin 1"
    by (rule div_eval [where k = 0 and n = 4503599627370496]) (simp_all add: num_eval)
  show ?thesis
    using f1 f2 f3 f4
    by simp
qed

lemma exponent_five: "expof10_of cr 5 = 0"
  by (rule expof10_cr) (simp_all add: num_eval)

lemma scaled_tie: "expof10_of cr (1 / 2 ^ 3) = (- 1) \<and> Fin (1 / 2 ^ 3) * m_pow10 cr (2 - 1 - (- 1)) = Fin (25 / 2 ^ 1)"
proof -
  have f1: "expof10_of cr (1 / 2 ^ 3) = (- 1)"
    by (rule expof10_cr) (simp_all add: num_eval)
  have f2: "m_pow10 cr 2 = Fin 100"
    by (rule pow10_eval [where k = 6 and n = 7036874417766400]) (simp_all add: num_eval)
  have f3: "Fin (1 / 2 ^ 3) * Fin 100 = Fin (25 / 2 ^ 1)"
    by (rule mul_eval [where k = 3 and n = 7036874417766400]) (simp_all add: num_eval)
  show ?thesis
    using f1 f2 f3
    by simp
qed

lemma tie_steps: "Fin 12 + Fin 1 = Fin 13 \<and> m_pow10 cr (- 2) = Fin (5764607523034235 / 2 ^ 59) \<and> Fin 13 * Fin (5764607523034235 / 2 ^ 59) = Fin (1170935903116329 / 2 ^ 53)"
proof -
  have f1: "Fin 12 + Fin 1 = Fin 13"
    by (rule add_eval [where k = 3 and n = 7318349394477056]) (simp_all add: num_eval)
  have f2: "m_pow10 cr (- 2) = Fin (5764607523034235 / 2 ^ 59)"
    by (rule pow10_eval [where k = "- 7" and n = 5764607523034235]) (simp_all add: num_eval)
  have f3: "Fin 13 * Fin (5764607523034235 / 2 ^ 59) = Fin (1170935903116329 / 2 ^ 53)"
    by (rule mul_eval [where k = "- 3" and n = 4683743612465316]) (simp_all add: num_eval)
  show ?thesis
    using f1 f2 f3
    by simp
qed

lemma normal_mone: "isnormal (Fin (- 1))"
  by (simp add: isnormal_def p2_numeral)

lemma normal_mfive: "isnormal (Fin (- 5))"
  by (simp add: isnormal_def p2_numeral)

lemma isnormal_Fin:
  assumes "isnormal a"
  obtains v where "a = Fin v" and "v \<noteq> 0" and "p2 (- 1022) \<le> \<bar>v\<bar>" and "\<bar>v\<bar> < p2 1024"
proof (cases a)
  case (Fin v)
  have b: "p2 (- 1022) \<le> \<bar>v\<bar>" "\<bar>v\<bar> < p2 1024"
    using assms Fin by (simp_all add: isnormal_def)
  have "0 < \<bar>v\<bar>" using b(1) p2_pos [of "- 1022"] by linarith
  then have "v \<noteq> 0" by simp
  then show ?thesis using that Fin b by blast
qed (insert assms, simp_all add: isnormal_def)

lemma normal_mY: "isnormal (Fin (- (5587935447692871 * 2 ^ 28)))"
  by (simp add: isnormal_def p2_numeral)

section \<open>Runs of the analyzer\<close>

text \<open>The constants of lines 178 to 187 and small products, evaluated.\<close>

lemma two_pi: "Fin 2 * M_PI = Fin (884279719003555 / 2 ^ 47)"
  unfolding M_PI_def
  by (rule mul_eval [where k = 2 and n = 7074237752028440]) (simp_all add: num_eval)

lemma half_pi: "M_PI / Fin 2 = Fin (884279719003555 / 2 ^ 49)"
  unfolding M_PI_def
  by (rule div_eval [where k = 0 and n = 7074237752028440]) (simp_all add: num_eval)

lemma neg_half_pi: "- M_PI / Fin 2 = Fin (- (884279719003555 / 2 ^ 49))"
  unfolding M_PI_def uminus_double.simps
  by (simp, rule div_eval [where k = 0 and n = "- 7074237752028440"]) (simp_all add: num_eval)

lemma clamp_lo: "Fin (- (884279719003555 / 2 ^ 49)) + Fin (2535301200456459 / 2 ^ 101) = Fin (- (7074237752028435 / 2 ^ 52))"
  by (rule add_eval [where k = 0 and n = "- 7074237752028435"]) (simp_all add: num_eval)

lemma clamp_hi: "Fin (884279719003555 / 2 ^ 49) - Fin (2535301200456459 / 2 ^ 101) = Fin (7074237752028435 / 2 ^ 52)"
  by (rule sub_eval [where k = 0 and n = 7074237752028435]) (simp_all add: num_eval)

lemma two_pi_f: "Fin (884279719003555 / 2 ^ 47) * Fin 1000 = Fin (6908435304715273 / 2 ^ 40)"
  by (rule mul_eval [where k = 12 and n = 6908435304715273]) (simp_all add: num_eval)

lemma above_amount: "Fin (884279719003555 / 2 ^ 48) - Fin (884279719003555 / 2 ^ 49) = Fin (884279719003555 / 2 ^ 49)"
  by (rule sub_eval [where k = 0 and n = 7074237752028440]) (simp_all add: num_eval)

lemma below_amount: "Fin (- (884279719003555 / 2 ^ 48)) + Fin (884279719003555 / 2 ^ 49) = Fin (- (884279719003555 / 2 ^ 49))"
  by (rule add_eval [where k = 0 and n = "- 7074237752028440"]) (simp_all add: num_eval)

lemma one_minus_two: "Fin 1 - Fin 2 = Fin (- 1)"
  by (rule sub_eval [where k = 0 and n = "- 4503599627370496"]) (simp_all add: num_eval)

lemma two_times_one: "Fin 2 * Fin 1 = Fin 2"
  by (rule mul_eval [where k = 1 and n = 4503599627370496]) (simp_all add: num_eval)



lemma one_times_one: "Fin 1 * Fin 1 = Fin 1"
  by (rule mul_eval [where k = 0 and n = 4503599627370496]) (simp_all add: num_eval)

lemma two_minus_one: "Fin 2 - Fin 1 = Fin 1"
  by (rule sub_eval [where k = 0 and n = 4503599627370496]) (simp_all add: num_eval)


lemma zero_plus_pi: "Fin 0 + Fin (884279719003555 / 2 ^ 48) = Fin (884279719003555 / 2 ^ 48)"
  by (rule add_eval [where k = 1 and n = 7074237752028440]) (simp_all add: num_eval)

lemma one_times_1000: "Fin 1 * Fin 1000 = Fin 1000"
  by (rule mul_eval [where k = 9 and n = 8796093022208000]) (simp_all add: num_eval)


lemma rep_V: "round64 False (4959589089641759 / 2 ^ 49) = Fin (4959589089641759 / 2 ^ 49)"
  by (rule round64_eval [where k = 3 and n = 4959589089641759]) (simp_all add: num_eval)

lemma V_times_R: "Fin (4959589089641759 / 2 ^ 49) * Fin (5766718585359565 / 2 ^ 44) = Fin (6350598842127221 / 2 ^ 41)"
  by (rule mul_eval [where k = 11 and n = 6350598842127221]) (simp_all add: num_eval)

lemma theta_example: "Fin (6908435304715273 / 2 ^ 40) * Fin (8005886927989945 / 2 ^ 65) = Fin (6140438368760685 / 2 ^ 52)"
  by (rule mul_eval [where k = 0 and n = 6140438368760685]) (simp_all add: num_eval)

text \<open>Three runs of lines 172 and 173 with \<open>theta\<close> zero, at 1 kHz.\<close>

lemma times_zero_eval [simp]:
  "Fin a * Fin 0 = signed_zero (a < 0)" "Fin a * NZero = signed_zero (\<not> a < 0)"
  by (simp_all add: times_double_def)

lemma plus_cancel_eval: "a + b = 0 \<Longrightarrow> Fin a + Fin b = signed_zero (a < 0 \<and> b < 0)"
  by (simp add: plus_double_def)

lemma nzero_minus_pi:
  "NZero - Fin (884279719003555 / 2 ^ 48) = Fin (- (884279719003555 / 2 ^ 48))"
  by (simp add: minus_double_def plus_double_def,
      rule round64_eval [where k = 1 and n = "- 7074237752028440"]) (simp_all add: num_eval)

lemma theta_zero: "Fin 2 * M_PI * Fin 1000 * Fin 0 = Fin 0"
  using two_pi two_pi_f by (simp add: signed_zero_def)

lemma theta_nzero: "Fin 2 * M_PI * Fin 1000 * NZero = NZero"
  using two_pi two_pi_f by (simp add: signed_zero_def)

lemma val_pi: "val M_PI = 884279719003555 / 2 ^ 48"
  by (simp add: M_PI_def)

lemma phi_raw_above: "phi_raw cr (Fin 1000) (Fin 0) (Fin 1) (Fin 2) = M_PI"
  using two_times_one one_minus_two zero_plus_pi
  apply (simp add: phi_raw_def Let_def theta_zero atan2_def with_sign_def signed_zero_def val_pi)
  apply (simp add: M_PI_def minus_double_def)
  done

lemma phi_raw_below: "phi_raw cr (Fin 1000) NZero (Fin 1) (Fin 2) = - M_PI"
  using two_times_one one_minus_two nzero_minus_pi
  apply (simp add: phi_raw_def Let_def theta_nzero atan2_def with_sign_def signed_zero_def val_pi)
  apply (simp add: M_PI_def)
  done

lemma phi_raw_zero: "phi_raw cr (Fin 1000) (Fin 0) (Fin 2) (Fin 1) = Fin 0"
  using one_times_one two_minus_one
  by (simp add: phi_raw_def Let_def theta_zero atan2_def with_sign_def signed_zero_def
      minus_double_def plus_double_def)

text \<open>The clamp of lines 178 to 187, case by case.\<close>

lemma less_fin [simp]: "(Fin a < Fin b) = (a < b)"
  by simp

lemma clamp_below:
  "p < - M_PI / Fin 2 \<Longrightarrow>
   clamp_phi p = ([Phi_below (p + M_PI / Fin 2)], Fin (- (7074237752028435 / 2 ^ 52)))"
  using clamp_lo by (simp add: clamp_phi_def neg_half_pi half_pi)

lemma not_below_and_above: "p < - M_PI / Fin 2 \<Longrightarrow> \<not> M_PI / Fin 2 < p"
  by (cases p) (simp_all add: neg_half_pi half_pi)

lemma clamp_above:
  "M_PI / Fin 2 < p \<Longrightarrow>
   clamp_phi p = ([Phi_above (p - M_PI / Fin 2)], Fin (7074237752028435 / 2 ^ 52))"
  using clamp_hi not_below_and_above [of p] by (auto simp: clamp_phi_def neg_half_pi half_pi)

lemma clamp_inside:
  "\<not> p < - M_PI / Fin 2 \<Longrightarrow> \<not> M_PI / Fin 2 < p \<Longrightarrow> clamp_phi p = ([], p)"
  by (simp add: clamp_phi_def)

text \<open>Equal amplitudes: the radicand of line 189 is exactly zero.\<close>

lemma signed_zero_simps [simp]: "signed_zero False = Fin 0" "signed_zero True = NZero"
  by (simp_all add: signed_zero_def)

lemma divide_by_pos_zero: "\<not> is_fin (b / Fin 0)" "\<not> is_zero (b / Fin 0)" "Fin 0 < b \<Longrightarrow> b / Fin 0 = PInf"
  by (cases b; simp add: divide_double_def signed_inf_def)+

lemma square_bounds:
  assumes "p2 (- 511) \<le> \<bar>V\<bar>" and "\<bar>V\<bar> < p2 511"
  shows "p2 (- 1022) \<le> \<bar>V * V\<bar>" and "\<bar>V * V\<bar> < p2 1022" and "p2 (- 1022) \<le> \<bar>V\<bar>"
    and "\<bar>2 * V\<bar> < p2 1024" and "V \<noteq> 0"
proof -
  have "p2 (- 511) * p2 (- 511) \<le> \<bar>V\<bar> * \<bar>V\<bar>"
    using assms(1) by (intro mult_mono) (simp_all add: less_imp_le)
  then show "p2 (- 1022) \<le> \<bar>V * V\<bar>" using p2_add [of "- 511" "- 511"] by (simp add: abs_mult)
  have "\<bar>V\<bar> * \<bar>V\<bar> < p2 511 * p2 511"
    using assms(2) by (intro mult_strict_mono) simp_all
  then show "\<bar>V * V\<bar> < p2 1022" using p2_add [of 511 511] by (simp add: abs_mult)
  have "p2 (- 1022) \<le> p2 (- 511)" by (intro p2_mono) simp
  then show "p2 (- 1022) \<le> \<bar>V\<bar>" using assms(1) by linarith
  have "p2 511 \<le> p2 1023" by (intro p2_mono) simp
  then have "\<bar>V\<bar> < p2 1023" using assms(2) by linarith
  then show "\<bar>2 * V\<bar> < p2 1024" using p2_Suc [of 1023] by (simp add: abs_mult)
  have "0 < \<bar>V\<bar>" using assms(1) p2_pos [of "- 511"] by linarith
  then show "V \<noteq> 0" by simp
qed

lemma radicand_zero:
  assumes "round64 False V = Fin V" and "p2 (- 511) \<le> \<bar>V\<bar>" and "\<bar>V\<bar> < p2 511"
  shows "Fin V * Fin V - Fin 2 * Fin V * Fin V * Fin 1 + Fin V * Fin V = Fin 0"
proof -
  note b = square_bounds [OF assms(2,3)]
  obtain x where x: "round64 False (V * V) = Fin x" "x \<noteq> 0" "\<bar>x\<bar> \<le> p2 1022"
    using round64_normal [OF b(1,2), of False] by auto
  have vv: "V * V \<noteq> 0" using b(5) by simp
  have x2: "\<bar>2 * x\<bar> < p2 1024"
  proof -
    have "\<bar>2 * x\<bar> \<le> p2 1023" using x(3) p2_Suc [of 1022] by (simp add: abs_mult)
    moreover have "p2 1023 < p2 1024" by (simp add: p2_numeral)
    ultimately show ?thesis by linarith
  qed
  have sq: "Fin V * Fin V = Fin x" using x(1) by (simp add: times_double_def)
  have "round64 s (2 * V) = Fin (2 * V)" for s
    using assms(1) b(3,5,4) by (rule round64_double)
  then have two: "Fin 2 * Fin V = Fin (2 * V)" by (simp add: times_double_def)
  have d: "round64 s (2 * (V * V)) = Fin (2 * x)" for s
    using x(1) b(1) x(2) x2 by (rule round64_double)
  then have "Fin (2 * V) * Fin V = Fin (2 * x)" by (simp add: times_double_def mult.assoc)
  moreover have "round64 s (2 * x) = Fin (2 * x)" for s
    by (rule round64_again(1) [OF d [of False]]) (simp_all add: b(5) x(2))
  then have "Fin (2 * x) * Fin 1 = Fin (2 * x)" by (simp add: times_double_def)
  ultimately have prod: "Fin 2 * Fin V * Fin V * Fin 1 = Fin (2 * x)" by (simp add: two)
  have "round64 s (- x) = Fin (- x)" for s
    using x(1) vv x(2) by (rule round64_again(2))
  then have diff: "Fin x - Fin (2 * x) = Fin (- x)"
    using x(2) by (simp add: minus_double_def plus_double_def)
  have "Fin (- x) + Fin x = Fin 0"
    by (simp add: plus_double_def signed_zero_def)
  then show ?thesis by (simp add: sq prod diff)
qed

section \<open>The claims\<close>

text \<open>
  C2. Lines 178 to 187 never fail. When the raw phase \<open>p\<close> is below \<^verbatim>\<open>-M_PI/2\<close> the
  program prints the first warning with the amount \<^verbatim>\<open>phi + M_PI/2\<close> and sets \<open>phi\<close> to
  \<^verbatim>\<open>-M_PI/2 + 1e-15\<close>; when \<open>p\<close> is above \<^verbatim>\<open>M_PI/2\<close> it prints the second with the amount
  \<^verbatim>\<open>phi - M_PI/2\<close> and sets \<open>phi\<close> to \<^verbatim>\<open>M_PI/2 - 1e-15\<close>. In both cases the new \<open>phi\<close> is a
  finite double strictly between \<open>-\<pi>/2\<close> and \<open>\<pi>/2\<close>, and strictly between the doubles
  \<^verbatim>\<open>-M_PI/2\<close> and \<^verbatim>\<open>M_PI/2\<close>. When \<open>p\<close> is between \<^verbatim>\<open>-M_PI/2\<close> and \<^verbatim>\<open>M_PI/2\<close>, no
  warning is printed and \<open>phi\<close> is \<open>p\<close>.
\<close>

theorem phi_clamped:
  assumes "a = analyze L R freq delta_t V_in V_dut"
    and "p = phi_raw L freq delta_t V_in V_dut"
  shows "(p < - M_PI / Fin 2 \<longrightarrow>
            warnings a = [Phi_below (p + M_PI / Fin 2)]
            \<and> phi a = - M_PI / Fin 2 + Fin (2535301200456459 / 2 ^ 101))
       \<and> (M_PI / Fin 2 < p \<longrightarrow>
            warnings a = [Phi_above (p - M_PI / Fin 2)]
            \<and> phi a = M_PI / Fin 2 - Fin (2535301200456459 / 2 ^ 101))
       \<and> (p < - M_PI / Fin 2 \<or> M_PI / Fin 2 < p \<longrightarrow>
            (\<exists>x. phi a = Fin x \<and> - (pi / 2) < x \<and> x < pi / 2)
            \<and> - M_PI / Fin 2 < phi a \<and> phi a < M_PI / Fin 2)
       \<and> (- M_PI / Fin 2 \<le> p \<and> p \<le> M_PI / Fin 2 \<longrightarrow> warnings a = [] \<and> phi a = p)"
proof -
  have f: "phi a = snd (clamp_phi p)" "warnings a = fst (clamp_phi p)"
    unfolding assms by (rule analyze_phi)+
  have lo: "- M_PI / Fin 2 + Fin (2535301200456459 / 2 ^ 101) = Fin (- (7074237752028435 / 2 ^ 52))"
    using clamp_lo by (simp add: neg_half_pi)
  have hi: "M_PI / Fin 2 - Fin (2535301200456459 / 2 ^ 101) = Fin (7074237752028435 / 2 ^ 52)"
    using clamp_hi by (simp add: half_pi)
  have b: "- (pi / 2) < - (7074237752028435 / 2 ^ 52)" "7074237752028435 / 2 ^ 52 < pi / 2"
    "- (pi / 2) < 7074237752028435 / 2 ^ 52" "- (7074237752028435 / 2 ^ 52) < pi / 2"
    using M_PI_less_pi by simp_all
  have below: "warnings a = [Phi_below (p + M_PI / Fin 2)]
      \<and> phi a = Fin (- (7074237752028435 / 2 ^ 52))" if "p < - M_PI / Fin 2"
    using clamp_below [OF that] by (simp add: f)
  have above: "warnings a = [Phi_above (p - M_PI / Fin 2)]
      \<and> phi a = Fin (7074237752028435 / 2 ^ 52)" if "M_PI / Fin 2 < p"
    using clamp_above [OF that] by (simp add: f)
  have inside: "warnings a = [] \<and> phi a = p" if "- M_PI / Fin 2 \<le> p \<and> p \<le> M_PI / Fin 2"
  proof -
    have "\<not> p < - M_PI / Fin 2" "\<not> M_PI / Fin 2 < p"
      using that by (simp_all add: le_imp_not_less)
    then show ?thesis using clamp_inside [of p] by (simp add: f)
  qed
  have range: "(\<exists>x. phi a = Fin x \<and> - (pi / 2) < x \<and> x < pi / 2)
      \<and> - M_PI / Fin 2 < phi a \<and> phi a < M_PI / Fin 2"
    if "p < - M_PI / Fin 2 \<or> M_PI / Fin 2 < p"
  proof -
    from that consider "p < - M_PI / Fin 2" | "M_PI / Fin 2 < p" by blast
    then show ?thesis
    proof cases
      case 1
      then have e: "phi a = Fin (- (7074237752028435 / 2 ^ 52))" using below by simp
      have "\<exists>x. phi a = Fin x \<and> - (pi / 2) < x \<and> x < pi / 2"
        using e b(1,4) by (intro exI [of _ "- (7074237752028435 / 2 ^ 52)"] conjI)
      moreover have "- M_PI / Fin 2 < phi a \<and> phi a < M_PI / Fin 2"
        by (simp add: e neg_half_pi half_pi)
      ultimately show ?thesis by blast
    next
      case 2
      then have e: "phi a = Fin (7074237752028435 / 2 ^ 52)" using above by simp
      have "\<exists>x. phi a = Fin x \<and> - (pi / 2) < x \<and> x < pi / 2"
        using e b(2,3) by (intro exI [of _ "7074237752028435 / 2 ^ 52"] conjI)
      moreover have "- M_PI / Fin 2 < phi a \<and> phi a < M_PI / Fin 2"
        by (simp add: e neg_half_pi half_pi)
      ultimately show ?thesis by blast
    qed
  qed
  show ?thesis unfolding lo hi using below above inside range by blast
qed

theorem phi_clamped_witness:
  "phi_raw cr (Fin 1000) (Fin 0) (Fin 1) (Fin 2) = M_PI
   \<and> M_PI / Fin 2 < M_PI
   \<and> warnings (analyze cr (Fin 1000) (Fin 1000) (Fin 0) (Fin 1) (Fin 2))
       = [Phi_above (Fin (884279719003555 / 2 ^ 49))]
   \<and> phi (analyze cr (Fin 1000) (Fin 1000) (Fin 0) (Fin 1) (Fin 2))
       = Fin (7074237752028435 / 2 ^ 52)
   \<and> phi_raw cr (Fin 1000) NZero (Fin 1) (Fin 2) = - M_PI
   \<and> - M_PI < - M_PI / Fin 2
   \<and> warnings (analyze cr (Fin 1000) (Fin 1000) NZero (Fin 1) (Fin 2))
       = [Phi_below (Fin (- (884279719003555 / 2 ^ 49)))]
   \<and> phi (analyze cr (Fin 1000) (Fin 1000) NZero (Fin 1) (Fin 2))
       = Fin (- (7074237752028435 / 2 ^ 52))
   \<and> phi_raw cr (Fin 1000) (Fin 0) (Fin 2) (Fin 1) = Fin 0
   \<and> - M_PI / Fin 2 \<le> Fin 0 \<and> Fin 0 \<le> M_PI / Fin 2
   \<and> warnings (analyze cr (Fin 1000) (Fin 1000) (Fin 0) (Fin 2) (Fin 1)) = []
   \<and> phi (analyze cr (Fin 1000) (Fin 1000) (Fin 0) (Fin 2) (Fin 1)) = Fin 0"
proof -
  have lo: "- M_PI / Fin 2 + Fin (2535301200456459 / 2 ^ 101) = Fin (- (7074237752028435 / 2 ^ 52))"
    using clamp_lo by (simp add: neg_half_pi)
  have hi: "M_PI / Fin 2 - Fin (2535301200456459 / 2 ^ 101) = Fin (7074237752028435 / 2 ^ 52)"
    using clamp_hi by (simp add: half_pi)
  have m: "M_PI / Fin 2 < M_PI" "- M_PI < - M_PI / Fin 2"
    "- M_PI / Fin 2 \<le> Fin 0" "Fin 0 \<le> M_PI / Fin 2"
    by (simp_all add: half_pi neg_half_pi) (simp_all add: M_PI_def)
  have am: "M_PI - M_PI / Fin 2 = Fin (884279719003555 / 2 ^ 49)"
    "- M_PI + M_PI / Fin 2 = Fin (- (884279719003555 / 2 ^ 49))"
    using above_amount below_amount by (simp_all add: half_pi) (simp_all add: M_PI_def)
  show ?thesis
    using phi_clamped [OF refl phi_raw_above [symmetric], of "Fin 1000", unfolded lo hi am]
      phi_clamped [OF refl phi_raw_below [symmetric], of "Fin 1000", unfolded lo hi am]
      phi_clamped [OF refl phi_raw_zero [symmetric], of "Fin 1000", unfolded lo hi]
      m phi_raw_above phi_raw_below phi_raw_zero
    by blast
qed

text \<open>
  C3. The claim that \<^verbatim>\<open>eng\<close> rounds every normal value to the digits asked for fails at
  small values: for the double \<^verbatim>\<open>5e-307\<close> and 4 digits, line 101 multiplies by
  \<^verbatim>\<open>pow(10.0, 310)\<close>, which is infinite, so lines 100 to 106 leave an infinite
  \<open>value\<close> and the program prints \<^verbatim>\<open>infe-306\<close>.
\<close>

theorem round_sig_overflow:
  "isnormal (Fin (6325070415853457 / 2 ^ 1070))
   \<and> round_sig cr (6325070415853457 / 2 ^ 1070) 4 = PInf
   \<and> eng cr (Fin (6325070415853457 / 2 ^ 1070)) 4 False [] 32 = Inr ''infe-306''"
proof -
  have "eng cr (Fin (6325070415853457 / 2 ^ 1070)) 4 False [] 32 = Inr ''infe-306''"
    using eng_pos [OF normal_tiny _ steps_tiny, of False "[]" 32]
    by (simp add: text1, simp add: text2)
  then show ?thesis using normal_tiny rounded_tiny by simp
qed

text \<open>
  C4. In lines 114 to 122, a mantissa that is 1000 or more after the multiplication by
  \<^verbatim>\<open>pow(10.0, -expof10)\<close> is divided by 1000 and the exponent grows by 3, the digits
  staying as they are; and 999960 with 3 digits is printed as \<^verbatim>\<open>1.00 M\<close>, or as
  \<^verbatim>\<open>1.00e6\<close> when \<open>numeric\<close> is set.
\<close>

theorem carry_correction:
  "(Fin 1000 \<le> value * m_pow10 L (- expof10) \<longrightarrow>
      carry L value expof10 digits =
        (value * m_pow10 L (- expof10) / Fin 1000, expof10 + 3, digits))
   \<and> eng cr (Fin 999960) 3 False [] 32 = Inr ''1.00 M''
   \<and> eng cr (Fin 999960) 3 True [] 32 = Inr ''1.00e6''"
proof -
  have "eng cr (Fin 999960) 3 False [] 32 = Inr ''1.00 M''"
    using eng_pos [OF normal_M _ steps_M, of False "[]" 32]
    by (simp add: text1, simp add: text2)
  moreover have "eng cr (Fin 999960) 3 True [] 32 = Inr ''1.00e6''"
    using eng_pos [OF normal_M _ steps_M, of True "[]" 32]
    by (simp add: text1, simp add: text2)
  ultimately show ?thesis by (simp add: carry_def Let_def)
qed

theorem carry_correction_witness:
  "round_sig cr 999960 3 = Fin 1000000 \<and> align (expof10_of cr 999960) = 3
   \<and> Fin 1000 \<le> Fin 1000000 * m_pow10 cr (- 3)
   \<and> carry cr (Fin 1000000) 3 3 = (Fin 1, 6, 3)"
  using carry_correction [of "Fin 1000000" cr 3 3] rounded_M carry_steps_M
  by (simp add: align_def cdiv_def)

text \<open>
  C5. For a normal value, \<^verbatim>\<open>eng\<close> chooses the representation from \<open>numeric\<close> and the
  exponent \<open>e\<close> that lines 100 to 122 leave in \<open>expof10\<close>: with \<open>numeric\<close> false, the
  text ends in the prefix \<open>y\<close> when \<open>e = -24\<close> and in \<open>Y\<close> when \<open>e = 24\<close>; with
  \<open>numeric\<close> true, or \<open>e\<close> below \<open>-24\<close> or above \<open>24\<close>, the text is the sign, the mantissa,
  the letter \<open>e\<close> and the exponent. (What is stored is that text cut to the buffer.)
\<close>

theorem eng_representation:
  assumes "isnormal value" and "mantissa L \<bar>val value\<bar> digits = (m, e, d)"
  shows "(\<not> numeric \<and> e = - 24 \<longrightarrow>
            eng L value digits numeric result rlen =
              Inr (snprintf result (sint rlen)
                     ((if value < Fin 0 then ''-'' else []) @ fmt_f L (d - 1) m @ '' y'')))
       \<and> (\<not> numeric \<and> e = 24 \<longrightarrow>
            eng L value digits numeric result rlen =
              Inr (snprintf result (sint rlen)
                     ((if value < Fin 0 then ''-'' else []) @ fmt_f L (d - 1) m @ '' Y'')))
       \<and> (numeric \<or> e < - 24 \<or> 24 < e \<longrightarrow>
            eng L value digits numeric result rlen =
              Inr (snprintf result (sint rlen)
                     ((if value < Fin 0 then ''-'' else []) @ fmt_f L (d - 1) m @ ''e'' @ fmt_d e)))"
proof -
  obtain v where v: "value = Fin v" "v \<noteq> 0"
    using assms(1) by (rule isnormal_Fin)
  have abs: "val (if value < Fin 0 then - value else value) = \<bar>val value\<bar>"
    using v by auto
  have "eng L value digits numeric result rlen =
          emit L (if value < Fin 0 then ''-'' else []) m e d numeric result (sint rlen)"
    using assms by (simp add: eng_def abs Let_def)
  then show ?thesis
    by (auto simp: emit_def PREFIX_START_def PREFIX_END_def prefix_def lookup_def cdiv_def)
qed

theorem eng_representation_witness:
  "eng cr (Fin (8166776806102523 / 2 ^ 132)) 4 False [] 32 = Inr ''1.500 y''
   \<and> eng cr (Fin (- (5587935447692871 * 2 ^ 28))) 4 False [] 32 = Inr ''-1.500 Y''
   \<and> eng cr (Fin (1045347431181123 / 2 ^ 139)) 4 False [] 32 = Inr ''1.500e-27''
   \<and> eng cr (Fin (5456968210637569 * 2 ^ 38)) 4 False [] 32 = Inr ''1.500e27''
   \<and> eng cr (Fin (8166776806102523 / 2 ^ 132)) 4 True [] 32 = Inr ''1.500e-24''"
proof -
  have "eng cr (Fin (8166776806102523 / 2 ^ 132)) 4 False [] 32 = Inr ''1.500 y''"
    using eng_representation [OF normal_y, of cr 4 "Fin (3 / 2 ^ 1)" "- 24" 4 False "[]" 32] steps_y
    by (simp add: text1, simp add: text2)
  moreover have "eng cr (Fin (- (5587935447692871 * 2 ^ 28))) 4 False [] 32 = Inr ''-1.500 Y''"
    using eng_representation [OF normal_mY, of cr 4 "Fin (6755399441055743 / 2 ^ 52)" 24 4 False "[]" 32] steps_Y
    by (simp add: text1, simp add: text2)
  moreover have "eng cr (Fin (1045347431181123 / 2 ^ 139)) 4 False [] 32 = Inr ''1.500e-27''"
    using eng_representation [OF normal_below, of cr 4 "Fin (3 / 2 ^ 1)" "- 27" 4 False "[]" 32] steps_below
    by (simp add: text1, simp add: text2)
  moreover have "eng cr (Fin (5456968210637569 * 2 ^ 38)) 4 False [] 32 = Inr ''1.500e27''"
    using eng_representation [OF normal_above, of cr 4 "Fin (3 / 2 ^ 1)" 27 4 False "[]" 32] steps_above
    by (simp add: text1, simp add: text2)
  moreover have "eng cr (Fin (8166776806102523 / 2 ^ 132)) 4 True [] 32 = Inr ''1.500e-24''"
    using eng_representation [OF normal_y, of cr 4 "Fin (3 / 2 ^ 1)" "- 24" 4 True "[]" 32] steps_y
    by (simp add: text1, simp add: text2)
  ultimately show ?thesis by blast
qed

text \<open>
  C6. Lines 197 to 205 compute exactly one pair: when \<open>phi\<close> (after the clamp) is above 0,
  \<open>Ls = X/(2\<pi>f)\<close> and \<open>Lp = Ls\<cdot>(1 + 1/Q/Q)\<close> and neither \<open>Cs\<close> nor \<open>Cp\<close>; otherwise (\<open>phi\<close> at
  most 0, or NaN) \<open>Cs = -1/(2\<pi>f\<cdot>X)\<close> and \<open>Cp = Cs/(1 + 1/Q/Q)\<close> and neither \<open>Ls\<close> nor \<open>Lp\<close>.
\<close>

theorem one_variant:
  assumes "a = analyze L R freq delta_t V_in V_dut"
  shows "(Fin 0 < phi a \<longrightarrow>
            Ls a = Some (X a / (Fin 2 * M_PI * freq))
            \<and> Lp a = Some (X a / (Fin 2 * M_PI * freq) * (Fin 1 + Fin 1 / Q a / Q a))
            \<and> Cs a = None \<and> Cp a = None)
       \<and> (\<not> Fin 0 < phi a \<longrightarrow>
            Cs a = Some (Fin (- 1) / (Fin 2 * M_PI * freq * X a))
            \<and> Cp a = Some (Fin (- 1) / (Fin 2 * M_PI * freq * X a) / (Fin 1 + Fin 1 / Q a / Q a))
            \<and> Ls a = None \<and> Lp a = None)
       \<and> (phi a \<le> Fin 0 \<longrightarrow> \<not> Fin 0 < phi a)"
  using analyze_inductive [OF assms] analyze_capacitive [OF assms] le_imp_not_less [of "phi a" "Fin 0"]
  by blast

theorem one_variant_witness:
  "Fin 0 < phi (analyze cr (Fin 1000) (Fin 1000) (Fin 0) (Fin 1) (Fin 2))
   \<and> Ls (analyze cr (Fin 1000) (Fin 1000) (Fin 0) (Fin 1) (Fin 2)) \<noteq> None
   \<and> Lp (analyze cr (Fin 1000) (Fin 1000) (Fin 0) (Fin 1) (Fin 2)) \<noteq> None
   \<and> Cs (analyze cr (Fin 1000) (Fin 1000) (Fin 0) (Fin 1) (Fin 2)) = None
   \<and> Cp (analyze cr (Fin 1000) (Fin 1000) (Fin 0) (Fin 1) (Fin 2)) = None
   \<and> phi (analyze cr (Fin 1000) (Fin 1000) (Fin 0) (Fin 2) (Fin 1)) \<le> Fin 0
   \<and> Cs (analyze cr (Fin 1000) (Fin 1000) (Fin 0) (Fin 2) (Fin 1)) \<noteq> None
   \<and> Cp (analyze cr (Fin 1000) (Fin 1000) (Fin 0) (Fin 2) (Fin 1)) \<noteq> None
   \<and> Ls (analyze cr (Fin 1000) (Fin 1000) (Fin 0) (Fin 2) (Fin 1)) = None
   \<and> Lp (analyze cr (Fin 1000) (Fin 1000) (Fin 0) (Fin 2) (Fin 1)) = None"
proof -
  have h: "M_PI / Fin 2 < M_PI" by (simp add: half_pi) (simp add: M_PI_def)
  have p1: "phi (analyze cr (Fin 1000) (Fin 1000) (Fin 0) (Fin 1) (Fin 2))
      = Fin (7074237752028435 / 2 ^ 52)"
    using clamp_above [OF h] by (simp add: analyze_phi phi_raw_above)
  have "\<not> Fin 0 < - M_PI / Fin 2" "\<not> M_PI / Fin 2 < Fin 0"
    by (simp_all add: half_pi neg_half_pi)
  then have p2: "phi (analyze cr (Fin 1000) (Fin 1000) (Fin 0) (Fin 2) (Fin 1)) = Fin 0"
    using clamp_inside [of "Fin 0"] by (simp add: analyze_phi phi_raw_zero)
  show ?thesis
    using one_variant [OF refl, of cr "Fin 1000" "Fin 1000" "Fin 0" "Fin 1" "Fin 2"]
      one_variant [OF refl, of cr "Fin 1000" "Fin 1000" "Fin 0" "Fin 2" "Fin 1"]
    by (simp add: p1 p2)
qed

text \<open>
  C7. For equal amplitudes and \<open>theta\<close> a zero the program does not compute \<open>Z = 0\<close>: the
  radicand of line 189 is \<open>V\<^sup>2 - 2V\<^sup>2 + V\<^sup>2 = 0\<close>, so \<open>Z\<close> is \<^verbatim>\<open>V_dut*R\<close> divided by zero, an
  infinity or NaN, and \<open>+\<infinity>\<close> when \<^verbatim>\<open>V_dut*R\<close> is positive; \<^verbatim>\<open>eng\<close> fails its assertion on such
  a \<open>Z\<close>. This is proved for every double \<open>V\<close> with \<open>2\<^sup>-\<^sup>5\<^sup>1\<^sup>1 \<le> \<bar>V\<bar> < 2\<^sup>5\<^sup>1\<^sup>1\<close>, for which \<open>V\<^sup>2\<close>
  neither overflows nor is subnormal.
\<close>

theorem equal_amplitudes:
  assumes "a = analyze L R freq delta_t (Fin V) (Fin V)"
    and "is_zero (theta a)"
    and "round64 False V = Fin V"
    and "p2 (- 511) \<le> \<bar>V\<bar>" and "\<bar>V\<bar> < p2 511"
  shows "\<not> is_zero (Z a) \<and> \<not> is_fin (Z a)
       \<and> (Fin 0 < Fin V * R \<longrightarrow> Z a = PInf)
       \<and> eng L (Z a) 4 False result 32 = Inl Assertion_failed"
proof -
  have c: "dcos L (theta a) = Fin 1" using assms(2) by (rule dcos_zero)
  have "Z a = Fin V * R / dsqrt (Fin V * Fin V - Fin 2 * Fin V * Fin V * Fin 1 + Fin V * Fin V)"
    using c unfolding assms(1) by (simp add: analyze_Z)
  then have z: "Z a = Fin V * R / Fin 0"
    by (simp add: radicand_zero [OF assms(3-5)])
  show ?thesis
    unfolding z
    using divide_by_pos_zero [of "Fin V * R"]
      eng_not_normal [OF not_fin_not_normal [OF divide_by_pos_zero(1) [of "Fin V * R"]]]
    by simp
qed

theorem equal_amplitudes_witness:
  "round64 False (4959589089641759 / 2 ^ 49) = Fin (4959589089641759 / 2 ^ 49)
   \<and> theta (analyze cr (Fin (5766718585359565 / 2 ^ 44)) (Fin 1000) (Fin 0)
        (Fin (4959589089641759 / 2 ^ 49)) (Fin (4959589089641759 / 2 ^ 49))) = Fin 0
   \<and> Z (analyze cr (Fin (5766718585359565 / 2 ^ 44)) (Fin 1000) (Fin 0)
        (Fin (4959589089641759 / 2 ^ 49)) (Fin (4959589089641759 / 2 ^ 49))) = PInf
   \<and> eng cr PInf 4 False [] 32 = Inl Assertion_failed"
proof -
  let ?a = "analyze cr (Fin (5766718585359565 / 2 ^ 44)) (Fin 1000) (Fin 0)
        (Fin (4959589089641759 / 2 ^ 49)) (Fin (4959589089641759 / 2 ^ 49))"
  have t: "theta ?a = Fin 0" by (simp add: analyze_theta theta_zero)
  have b: "p2 (- 511) \<le> \<bar>4959589089641759 / 2 ^ 49 :: real\<bar>"
    "\<bar>4959589089641759 / 2 ^ 49 :: real\<bar> < p2 511"
    by (simp_all add: p2_numeral)
  have p: "Fin 0 < Fin (4959589089641759 / 2 ^ 49) * Fin (5766718585359565 / 2 ^ 44)"
    using V_times_R by simp
  show ?thesis
    using equal_amplitudes [OF refl _ rep_V b, of cr "Fin (5766718585359565 / 2 ^ 44)" "Fin 1000" "Fin 0" "[]"]
      t p rep_V
    by auto
qed

theorem equal_amplitudes_not_zero:
  "theta (analyze cr (Fin 1000) (Fin 1000) (Fin 0) (Fin 1) (Fin 1)) = Fin 0
   \<and> Z (analyze cr (Fin 1000) (Fin 1000) (Fin 0) (Fin 1) (Fin 1)) = PInf"
proof -
  let ?a = "analyze cr (Fin 1000) (Fin 1000) (Fin 0) (Fin 1) (Fin 1)"
  have t: "theta ?a = Fin 0" by (simp add: analyze_theta theta_zero)
  have "Fin 1 * Fin 1 - Fin 2 * Fin 1 * Fin 1 * Fin 1 + Fin 1 * Fin 1 = Fin 0"
    using one_times_one two_times_one one_minus_two
    by (simp add: plus_cancel_eval signed_zero_def)
  then have "Z ?a = PInf"
    using one_times_1000 by (simp add: analyze_Z t divide_double_def signed_inf_def)
  then show ?thesis using t by simp
qed

text \<open>
  C8. The text \<^verbatim>\<open>eng\<close> stores for \<open>- v\<close> is not always \<^verbatim>\<open>-\<close> followed by the text it stores
  for \<open>v\<close>: both are cut to the buffer, and the sign takes one place. It is so whenever
  the text for \<open>v\<close> leaves one place free (or \<open>rlen\<close> is negative, which \<^verbatim>\<open>snprintf\<close>
  reads as a huge size); and the text for the positive \<open>v\<close> starts with the mantissa as
  \<^verbatim>\<open>printf\<close> prints it, the sign string being empty.
\<close>

theorem eng_sign:
  assumes "isnormal (Fin v)" and "0 < v"
    and "eng L (Fin v) digits numeric result rlen = Inr s"
    and "sint rlen < 0 \<or> int (length s) + 1 < sint rlen"
  shows "eng L (Fin (- v)) digits numeric result rlen = Inr (''-'' @ s)
    \<and> (\<exists>rest. s = fmt_f L (snd (snd (mantissa L v digits)) - 1) (fst (mantissa L v digits)) @ rest)"
proof -
  obtain m e d where m: "mantissa L v digits = (m, e, d)" using prod_cases3 by blast
  obtain rest where r: "\<And>sign. emit L sign m e d numeric result (sint rlen)
       = Inr (snprintf result (sint rlen) (sign @ fmt_f L (d - 1) m @ rest))"
    using emit_text [of L m e d numeric result "sint rlen"] by blast
  let ?body = "fmt_f L (d - 1) m @ rest"
  have "eng L (Fin v) digits numeric result rlen = Inr (snprintf result (sint rlen) ?body)"
    using eng_pos [OF assms(1,2) m] r [of "[]"] by simp
  then have s: "snprintf result (sint rlen) ?body = s" using assms(3) by simp
  have n: "eng L (Fin (- v)) digits numeric result rlen
      = Inr (snprintf result (sint rlen) (''-'' @ ?body))"
    using eng_neg [OF assms(1,2) m] r [of "''-''"] by simp
  have b: "?body = s" using s assms(4) by (rule snprintf_fits(1))
  have "snprintf result (sint rlen) (''-'' @ ?body) = ''-'' @ ?body"
    using s assms(4) by (rule snprintf_fits(2))
  then have "eng L (Fin (- v)) digits numeric result rlen = Inr (''-'' @ s)"
    using n b by simp
  moreover have "s = fmt_f L (snd (snd (mantissa L v digits)) - 1) (fst (mantissa L v digits)) @ rest"
    using b m by simp
  ultimately show ?thesis by blast
qed

theorem eng_sign_witness:
  "isnormal (Fin 5) \<and> eng cr (Fin 5) 4 False [] 32 = Inr ''5.000 ''
   \<and> eng cr (Fin (- 5)) 4 False [] 32 = Inr ''-5.000 ''"
proof -
  have p: "eng cr (Fin 5) 4 False [] 32 = Inr ''5.000 ''"
    using eng_pos [OF normal_five _ steps_five, of False "[]" 32]
    by (simp add: text1, simp add: text2)
  have "eng cr (Fin (- 5)) 4 False [] 32 = Inr ''-5.000 ''"
    using eng_sign [OF normal_five _ p] by simp
  then show ?thesis using normal_five p by simp
qed

theorem eng_sign_cut_short:
  "eng cr (Fin 1) 4 False [] 4 = Inr ''1.0'' \<and> eng cr (Fin (- 1)) 4 False [] 4 = Inr ''-1.''"
proof -
  have "eng cr (Fin 1) 4 False [] 4 = Inr ''1.0''"
    using eng_pos [OF normal_one _ steps_one, of False "[]" 4]
    by (simp add: text1, simp add: text2)
  moreover have "eng cr (Fin (- 1)) 4 False [] 4 = Inr ''-1.''"
    using eng_neg [OF normal_one _ steps_one, of False "[]" 4]
    by (simp add: text1, simp add: text2)
  ultimately show ?thesis by simp
qed

text \<open>
  C9. The claim that the mantissa shown is below 1000 fails: for the double \<^verbatim>\<open>1e-21\<close> and
  4 digits, line 114 multiplies \<^verbatim>\<open>1e-21\<close> by \<^verbatim>\<open>pow(10.0, 24)\<close>, and the product is the
  double just below 1000, so the test of line 115 fails, line 120 drops two decimals, and
  the program prints \<^verbatim>\<open>1000.0 y\<close>.
\<close>

theorem eng_shows_1000:
  "isnormal (Fin (5316911983139663 / 2 ^ 122))
   \<and> mantissa cr (5316911983139663 / 2 ^ 122) 4 = (Fin (1000 - 1 / 2 ^ 43), - 24, 2)
   \<and> eng cr (Fin (5316911983139663 / 2 ^ 122)) 4 False [] 32 = Inr ''1000.0 y''"
proof -
  have "eng cr (Fin (5316911983139663 / 2 ^ 122)) 4 False [] 32 = Inr ''1000.0 y''"
    using eng_pos [OF normal_k21 _ steps_k21, of False "[]" 32]
    by (simp add: text1, simp add: text2)
  then show ?thesis using normal_k21 steps_k21 by simp
qed



text \<open>
  X1. For every input, the exponent that lines 109 to 122 leave is a multiple of 3, and
  when it is in the range of the table, the index \<^verbatim>\<open>(expof10-PREFIX_START)/3\<close> of line 128
  is one of 0 to 16 and the read is inside the 17 entries: \<^verbatim>\<open>eng\<close> never reads outside
  \<^verbatim>\<open>prefix\<close>.
\<close>

theorem eng_lookup_in_bounds:
  "eng L value digits numeric result rlen \<noteq> Inl Out_of_bounds
   \<and> (mantissa L v digits = (m, e, d) \<longrightarrow>
        e mod 3 = 0
        \<and> (PREFIX_START \<le> e \<and> e \<le> PREFIX_END \<longrightarrow>
             0 \<le> cdiv (e - PREFIX_START) 3 \<and> cdiv (e - PREFIX_START) 3 \<le> 16
             \<and> lookup prefix (cdiv (e - PREFIX_START) 3) \<noteq> None))"
proof -
  have "lookup prefix (cdiv (e - PREFIX_START) 3) \<noteq> None"
    if "PREFIX_START \<le> e" "e \<le> PREFIX_END"
    using prefix_index [OF that] by (simp add: lookup_def)
  then show ?thesis
    using eng_not_oob [of L "value" digits numeric result rlen] mantissa_exp_mod3 [of L v digits m e d]
      prefix_index(1,2) [of e]
    by blast
qed

theorem eng_lookup_in_bounds_witness:
  "align (expof10_of cr 5) = - 3 \<and> mantissa cr 5 4 = (Fin 5, 0, 4)
   \<and> cdiv (0 - PREFIX_START) 3 = 8 \<and> lookup prefix 8 = Some ''''
   \<and> eng cr (Fin 5) 4 False [] 32 \<noteq> Inl Out_of_bounds"
  using eng_lookup_in_bounds [of cr "Fin 5" 4 False "[]" 32 5 "Fin 5" 0 4] steps_five exponent_five
  by (simp add: align_def cdiv_def PREFIX_START_def PREFIX_END_def prefix_def lookup_def)

text \<open>
  X2. Lines 103 to 106 round the scaled value half up: when the product of line 101 is
  the finite \<open>x \<ge> 0\<close>, the integer kept is \<open>\<lfloor>x\<rfloor>\<close>, or \<open>\<lfloor>x\<rfloor> + 1\<close> when the fraction is one
  half or more, and line 106 multiplies it by \<^verbatim>\<open>pow(10.0, expof10 - digits + 1)\<close>. A tie
  goes up: 0.125 with 2 digits gives 13 to scale back, not 12.
\<close>

theorem round_sig_half_up:
  assumes "Fin v * m_pow10 L (digits - 1 - expof10_of L v) = Fin x" and "0 \<le> x"
  shows "round_sig L v digits =
           (if 1 / 2 \<le> x - of_int \<lfloor>x\<rfloor> then Fin (of_int \<lfloor>x\<rfloor>) + Fin 1 else Fin (of_int \<lfloor>x\<rfloor>))
           * m_pow10 L (expof10_of L v - digits + 1)"
  using assms by (simp add: round_sig_def Let_def)

theorem round_sig_half_up_witness:
  "Fin (1 / 8) * m_pow10 cr (2 - 1 - expof10_of cr (1 / 8)) = Fin (25 / 2)
   \<and> round_sig cr (1 / 8) 2 = Fin 13 * m_pow10 cr (- 2)
   \<and> round_sig cr (1 / 8) 2 = Fin (1170935903116329 / 2 ^ 53)"
  using round_sig_half_up [of "1 / 8" cr 2 "25 / 2"] scaled_tie tie_steps
  by simp

text \<open>
  X3. For the worked example of the header, 1 kHz and 217 \<mu>s, line 172 computes
  \<open>theta = 1.36345121165797\<close>, the double \<^verbatim>\<open>0x1.5d0b237bc336dp+0\<close>, whatever the other inputs
  and the \<^verbatim>\<open>libm\<close> are; it is within \<open>5\<cdot>10\<^sup>-\<^sup>7\<close> of the 1.363451 of the header.
\<close>

theorem theta_example_value:
  "theta (analyze L R (Fin 1000) (Fin (8005886927989945 / 2 ^ 65)) V_in V_dut)
     = Fin (6140438368760685 / 2 ^ 52)
   \<and> \<bar>6140438368760685 / 2 ^ 52 - 1363451 / 10 ^ 6\<bar> < (5 / 10 ^ 7 :: real)"
  using two_pi two_pi_f theta_example by (simp add: analyze_theta)

end
